theory Spec2Isabelle
  imports Complex_Main "HOL-Library.Multiset"
begin

section \<open>Floating-point numbers\<close>

text \<open>
  The element type \<open>dtype\<close> of the arrays is \<open>float\<close> or \<open>double\<close>, and the seeder keeps
  the total potential and the trial values in \<open>double\<close>. A finite floating-point
  number is modelled by the real number it denotes, and an arithmetic operation gives
  the exact result rounded to the nearest number of the format, ties to the even
  significand (the IEEE 754 default, which the code never changes). Infinities and NaN
  are not modelled: what is proved below speaks about runs in which no result leaves
  the range of the format.
\<close>

datatype floating = float32 | float64

definition round_half_even :: "real \<Rightarrow> int" where
  "round_half_even q =
     (let f = \<lfloor>q\<rfloor>
      in if q - of_int f < 1 / 2 then f
         else if 1 / 2 < q - of_int f then f + 1
         else if even f then f else f + 1)"

text \<open>
  Rounding to a format with \<open>p\<close> bits of significand and smallest normal exponent
  \<open>emin\<close>: the spacing of the format's numbers around \<open>x\<close> is \<open>2 ^ (e - p + 1)\<close> for
  the exponent \<open>e\<close> of \<open>x\<close>, and stays that of \<open>emin\<close> below (the subnormal numbers).
\<close>

definition round_to_precision :: "nat \<Rightarrow> int \<Rightarrow> real \<Rightarrow> real" where
  "round_to_precision p emin x =
     (if x = 0 then 0
      else (let e = max \<lfloor>log 2 \<bar>x\<bar>\<rfloor> emin;
                u = 2 powr of_int (e - int p + 1)
            in of_int (round_half_even (x / u)) * u))"

definition round_float :: "real \<Rightarrow> real" where
  "round_float = round_to_precision 24 (- 126)"

definition round_double :: "real \<Rightarrow> real" where
  "round_double = round_to_precision 53 (- 1022)"

fun round_dtype :: "floating \<Rightarrow> real \<Rightarrow> real" where
  "round_dtype float32 x = round_float x"
| "round_dtype float64 x = round_double x"

section \<open>Arrays, errors and the process state\<close>

text \<open>
  A numpy array as the C++ side sees it: its shape and its row-major element buffer.
\<close>

record np_array =
  shape :: "nat list"
  buf :: "real list"

definition ndim :: "np_array \<Rightarrow> nat" where
  "ndim a = length (shape a)"

text \<open>Both \<open>throw std::invalid_argument\<close> of the seeder, told apart by their message.\<close>

datatype message = not_enough_data nat nat | not_two_dimensions

text \<open>
  \<open>index_error\<close> is what \<open>shape(i)\<close> throws for an axis the array does not have;
  \<open>undefined_behaviour\<close> marks an execution that C++ gives no meaning to.
\<close>

datatype error = invalid_argument message | index_error | undefined_behaviour

definition shape_at :: "np_array \<Rightarrow> nat \<Rightarrow> error + nat" where
  "shape_at a i = (if i < ndim a then Inr (shape a ! i) else Inl index_error)"

text \<open>
  What outlives a call: the process-wide OpenMP thread count and the state the Python
  callback acts on.
\<close>

record 'w process =
  omp_num_threads :: int
  external :: 'w

text \<open>
  The parts of the repository that \<open>kmeans.h\<close> uses and that are defined elsewhere
  (\<open>distribution_utils.h\<close>, \<open>metric.h\<close>, \<open>bits/kmeans_bits.h\<close>, the standard
  library's distributions, the build flag, the template argument), taken as parameters:
  \<^item> \<open>dtype\<close>: the element type the template is instantiated with;
  \<^item> \<open>seededGenerator\<close>, \<open>randomlySeededGenerator\<close> (the latter reads the clock or a
    hardware source, here the external state);
  \<^item> \<open>uniform b g\<close>: one draw of \<open>std::uniform_int_distribution\<close> on \<open>[0, b]\<close>;
  \<^item> \<open>uniformReal g\<close>: one draw of \<open>std::uniform_real_distribution\<close> on \<open>[0, 1)\<close>;
  \<^item> \<open>compute_squared_d\<close>: the metric's squared distance between two points;
  \<^item> \<open>assign_chunk_to_centers\<close> and the five-argument \<open>costFunction\<close>, which are only
    declared in \<open>kmeans.h\<close>.
\<close>

record ('g, 'w) deps =
  USE_OPENMP :: bool
  dtype :: floating
  seededGenerator :: "int \<Rightarrow> 'g"
  randomlySeededGenerator :: "'w \<Rightarrow> 'g"
  uniform :: "nat \<Rightarrow> 'g \<Rightarrow> nat \<times> 'g"
  uniformReal :: "'g \<Rightarrow> real \<times> 'g"
  compute_squared_d :: "real list \<Rightarrow> real list \<Rightarrow> real"
  assign_chunk_to_centers :: "np_array \<Rightarrow> np_array \<Rightarrow> int \<Rightarrow> error + nat list"
  costFunction_assigned :: "np_array \<Rightarrow> np_array \<Rightarrow> nat list \<Rightarrow> int \<Rightarrow> error + real"

section \<open>The cost overload without assignments\<close>

definition costFunction ::
  "('g, 'w) deps \<Rightarrow> np_array \<Rightarrow> np_array \<Rightarrow> int \<Rightarrow> error + real" where
  "costFunction D np_data np_centers n_threads =
     (case assign_chunk_to_centers D np_data np_centers n_threads of
        Inl e \<Rightarrow> Inl e
      | Inr assignments \<Rightarrow> costFunction_assigned D np_data np_centers assignments n_threads)"

section \<open>Pointer ranges and the standard algorithms used by the seeder\<close>

text \<open>The range \<open>[p + off, p + off + n)\<close> of a buffer.\<close>

definition slice :: "'a list \<Rightarrow> nat \<Rightarrow> nat \<Rightarrow> 'a list" where
  "slice xs off n = take n (drop off xs)"

text \<open>\<open>std::copy(src.begin(), src.end(), dst + off)\<close>.\<close>

definition copy_into :: "'a list \<Rightarrow> nat \<Rightarrow> 'a list \<Rightarrow> 'a list" where
  "copy_into dst off src = take off dst @ src @ drop (off + length src) dst"

definition assignCenter :: "nat \<Rightarrow> nat \<Rightarrow> real list \<Rightarrow> real list \<Rightarrow> nat \<Rightarrow> real list" where
  "assignCenter frameIndex dim' data centers off =
     copy_into centers off (slice data (frameIndex * dim') dim')"

text \<open>\<open>std::min(a, b)\<close> returns \<open>b\<close> only when \<open>b < a\<close>.\<close>

definition std_min :: "real \<Rightarrow> real \<Rightarrow> real" where
  "std_min a b = (if b < a then b else a)"

text \<open>The sum of two \<open>dtype\<close> values, as \<open>+\<close> and \<open>+=\<close> on \<open>dtype\<close> compute it.\<close>

definition dtype_plus :: "('g, 'w) deps \<Rightarrow> real \<Rightarrow> real \<Rightarrow> real" where
  "dtype_plus D a b = round_dtype (dtype D) (a + b)"

text \<open>
  \<open>std::partial_sum\<close> on a vector of \<open>dtype\<close>: the first element is copied, every later
  one is added to the running sum, which is a \<open>dtype\<close>.
\<close>

fun partial_sum_acc :: "('g, 'w) deps \<Rightarrow> real \<Rightarrow> real list \<Rightarrow> real list" where
  "partial_sum_acc D acc [] = []"
| "partial_sum_acc D acc (x # xs) = dtype_plus D acc x # partial_sum_acc D (dtype_plus D acc x) xs"

definition partial_sum :: "('g, 'w) deps \<Rightarrow> real list \<Rightarrow> real list" where
  "partial_sum D xs = (case xs of [] \<Rightarrow> [] | x # rest \<Rightarrow> x # partial_sum_acc D x rest)"

text \<open>
  \<open>std::lower_bound(first, first + len, v)\<close>: the halving loop of the standard
  library, on positions of the vector.
\<close>

function lower_bound_loop :: "real list \<Rightarrow> nat \<Rightarrow> nat \<Rightarrow> real \<Rightarrow> nat" where
  "lower_bound_loop xs first len v =
     (if 0 < len then
        (let step = len div 2; it = first + step
         in if xs ! it < v then lower_bound_loop xs (it + 1) (len - (step + 1)) v
            else lower_bound_loop xs first step v)
      else first)"
  by pat_completeness auto
termination
  by (relation "measure (\<lambda>(xs, first, len, v). len)") auto

declare lower_bound_loop.simps [simp del]

definition lower_bound :: "real list \<Rightarrow> nat \<Rightarrow> nat \<Rightarrow> real \<Rightarrow> nat" where
  "lower_bound xs first last' v = lower_bound_loop xs first (last' - first) v"

text \<open>
  \<open>std::min_element\<close>: the position of the first smallest element (\<open>last\<close>, here the
  length, on an empty range).
\<close>

function min_element_loop :: "real list \<Rightarrow> nat \<Rightarrow> nat \<Rightarrow> nat" where
  "min_element_loop xs smallest i =
     (if i < length xs
      then min_element_loop xs (if xs ! i < xs ! smallest then i else smallest) (i + 1)
      else smallest)"
  by pat_completeness auto
termination
  by (relation "measure (\<lambda>(xs, smallest, i). length xs - i)") auto

declare min_element_loop.simps [simp del]

definition min_element :: "real list \<Rightarrow> nat" where
  "min_element xs = (if xs = [] then 0 else min_element_loop xs 0 1)"

text \<open>\<open>std::generate\<close> on a vector of \<open>n\<close> elements: \<open>n\<close> calls of the generator, in order.\<close>

fun generate :: "nat \<Rightarrow> ('g \<Rightarrow> real \<times> 'g) \<Rightarrow> 'g \<Rightarrow> real list \<times> 'g" where
  "generate 0 gen g = ([], g)"
| "generate (Suc n) gen g =
     (case gen g of (v, g') \<Rightarrow> (case generate n gen g' of (vs, g'') \<Rightarrow> (v # vs, g'')))"

text \<open>A row-major \<open>m \<times> n\<close> matrix filled by two nested loops.\<close>

definition tabulate2 :: "nat \<Rightarrow> nat \<Rightarrow> (nat \<Rightarrow> nat \<Rightarrow> 'a) \<Rightarrow> 'a list" where
  "tabulate2 m n f = concat (map (\<lambda>i. map (f i) [0..<n]) [0..<m])"

text \<open>
  Modelled from the spec: \<open>computeDistances\<close> is defined in \<open>metric.h\<close>, which is
  missing. By the spec it returns the dense \<open>Q \<times> R\<close> matrix of
  (here squared) distances between the query points and the reference points; the
  precomputed squared norms only speed the evaluation up and are left out.
\<close>

definition computeDistances ::
  "('g, 'w) deps \<Rightarrow> real list \<Rightarrow> nat \<Rightarrow> real list \<Rightarrow> nat \<Rightarrow> nat \<Rightarrow> real list" where
  "computeDistances D xs nXs ys nYs dim' =
     tabulate2 nXs nYs (\<lambda>i j. compute_squared_d D (slice xs (i * dim') dim') (slice ys (j * dim') dim'))"

text \<open>
  The number of threads of a parallel region: the process-wide setting when the build
  has OpenMP (at least one thread), one thread when the pragmas are ignored.
\<close>

definition team_size :: "('g, 'w) deps \<Rightarrow> 'w process \<Rightarrow> nat" where
  "team_size D P = (if USE_OPENMP D then max 1 (nat (omp_num_threads P)) else 1)"

text \<open>
  \<open>#pragma omp parallel for reduction(+:acc)\<close> over a range, with the static schedule:
  every thread of the team adds the elements of its block of consecutive iterations, in
  order, to a private \<open>dtype\<close> accumulator that starts at 0, and the private sums are
  added to the shared accumulator, which starts at 0 as well. Every one of these
  additions rounds, so the result depends on the number of threads.
\<close>

definition omp_reduction_sum :: "('g, 'w) deps \<Rightarrow> nat \<Rightarrow> real list \<Rightarrow> real" where
  "omp_reduction_sum D T xs =
     (let chunk = (length xs + T - 1) div T
      in foldl (dtype_plus D) 0
           (map (\<lambda>t. foldl (dtype_plus D) 0 (slice xs (t * chunk) chunk)) [0..<T]))"

text \<open>
  The loop of lines 184 to 188: a reduction over the team in an OpenMP build, the plain
  loop \<open>trialPotential += dptr[t]\<close> when the pragma is ignored.
\<close>

definition reduction_sum :: "('g, 'w) deps \<Rightarrow> 'w process \<Rightarrow> real list \<Rightarrow> real" where
  "reduction_sum D P xs =
     (if USE_OPENMP D then omp_reduction_sum D (team_size D P) xs
      else foldl (dtype_plus D) 0 xs)"

section \<open>The center seeder\<close>

text \<open>\<open>static_cast<std::size_t>(2 + std::log(k))\<close>, for \<open>k \<ge> 1\<close>.\<close>

definition nTrials_of :: "nat \<Rightarrow> nat" where
  "nTrials_of k = nat \<lfloor>2 + ln (real k)\<rfloor>"

text \<open>\<open>if (!callback.is_none()) callback();\<close>: the value the callback returns is dropped.\<close>

definition perform_callback :: "('w \<Rightarrow> 'r \<times> 'w) option \<Rightarrow> 'w process \<Rightarrow> 'w process" where
  "perform_callback callback P =
     (case callback of None \<Rightarrow> P | Some f \<Rightarrow> P\<lparr>external := snd (f (external P))\<rparr>)"

text \<open>
  The variables that live across the rounds of the seeding loop. \<open>currentPotential\<close> is
  a \<open>double\<close>; the values of \<open>dtype\<close> that are assigned to it are numbers of \<open>double\<close>
  too, so the assignments do not round.
\<close>

record ('g, 'w) seeding_state =
  generator :: 'g
  currentPotential :: real
  distances :: "real list"
  distancesCumsum :: "real list"
  centers :: "real list"
  proc :: "'w process"

text \<open>The lambda of lines 137 to 139: a product of two \<open>double\<close>s.\<close>

definition trialGenerator :: "('g, 'w) deps \<Rightarrow> real \<Rightarrow> 'g \<Rightarrow> real \<times> 'g" where
  "trialGenerator D potential g =
     (case uniformReal D g of (u, g') \<Rightarrow> (round_double (potential * u), g'))"

text \<open>
  The search of the sorted trial values in the prefix sums: each search starts where
  the previous one ended, and a search that reaches the end takes the last frame.
\<close>

fun find_candidates :: "real list \<Rightarrow> nat \<Rightarrow> nat \<Rightarrow> real list \<Rightarrow> nat list" where
  "find_candidates cumsum nFrames currentLowerIt [] = []"
| "find_candidates cumsum nFrames currentLowerIt (t # ts) =
     (let it = lower_bound cumsum currentLowerIt (length cumsum) t;
          cid = (if it \<noteq> length cumsum then it else nFrames - 1)
      in cid # find_candidates cumsum nFrames it ts)"

text \<open>
  One round of the loop \<open>for (c = 1; c < k; ++c)\<close>. The vectors \<open>trialValues\<close>,
  \<open>candidatesIds\<close>, \<open>candidatesPotentials\<close> and \<open>candidatesCoords\<close> are allocated once
  before the loop and every element of them is overwritten in each round, so they are
  values of the round.
\<close>

definition trialValues_of :: "('g, 'w) deps \<Rightarrow> nat \<Rightarrow> ('g, 'w) seeding_state \<Rightarrow> real list" where
  "trialValues_of D nTrials st =
     sort (fst (generate nTrials (trialGenerator D (currentPotential st)) (generator st)))"

definition candidatesIds_of ::
  "('g, 'w) deps \<Rightarrow> nat \<Rightarrow> nat \<Rightarrow> ('g, 'w) seeding_state \<Rightarrow> nat list" where
  "candidatesIds_of D nFrames nTrials st =
     find_candidates (distancesCumsum st) nFrames 0 (trialValues_of D nTrials st)"

definition candidatesCoords_of ::
  "('g, 'w) deps \<Rightarrow> real list \<Rightarrow> nat \<Rightarrow> nat \<Rightarrow> nat \<Rightarrow> ('g, 'w) seeding_state \<Rightarrow> real list" where
  "candidatesCoords_of D data nFrames dim' nTrials st =
     concat (map (\<lambda>cid. slice data (cid * dim') dim') (candidatesIds_of D nFrames nTrials st))"

definition distsToCandidates_of ::
  "('g, 'w) deps \<Rightarrow> real list \<Rightarrow> nat \<Rightarrow> nat \<Rightarrow> nat \<Rightarrow> ('g, 'w) seeding_state \<Rightarrow> real list" where
  "distsToCandidates_of D data nFrames dim' nTrials st =
     (let computed = computeDistances D (candidatesCoords_of D data nFrames dim' nTrials st) nTrials
                       data nFrames dim'
      in tabulate2 nTrials nFrames
           (\<lambda>trial frame. std_min (computed ! (trial * nFrames + frame)) (distances st ! frame)))"

definition candidatesPotentials_of ::
  "('g, 'w) deps \<Rightarrow> real list \<Rightarrow> nat \<Rightarrow> nat \<Rightarrow> nat \<Rightarrow> ('g, 'w) seeding_state \<Rightarrow> real list" where
  "candidatesPotentials_of D data nFrames dim' nTrials st =
     map (\<lambda>trial. reduction_sum D (proc st)
                    (slice (distsToCandidates_of D data nFrames dim' nTrials st) (trial * nFrames) nFrames))
       [0..<nTrials]"

definition seeding_round ::
  "('g, 'w) deps \<Rightarrow> real list \<Rightarrow> nat \<Rightarrow> nat \<Rightarrow> nat \<Rightarrow> ('w \<Rightarrow> 'r \<times> 'w) option \<Rightarrow> nat \<Rightarrow>
   ('g, 'w) seeding_state \<Rightarrow> ('g, 'w) seeding_state" where
  "seeding_round D data nFrames dim' nTrials callback c st =
     (let candidatesIds = candidatesIds_of D nFrames nTrials st;
          distsToCandidates = distsToCandidates_of D data nFrames dim' nTrials st;
          candidatesPotentials = candidatesPotentials_of D data nFrames dim' nTrials st;
          bestCandidateIx = min_element candidatesPotentials;
          bestCandidateId = candidatesIds ! bestCandidateIx;
          distances' = copy_into (distances st) 0 (slice distsToCandidates (bestCandidateIx * nFrames) nFrames)
      in \<lparr>generator = snd (generate nTrials (trialGenerator D (currentPotential st)) (generator st)),
          currentPotential = candidatesPotentials ! bestCandidateIx,
          distances = distances',
          distancesCumsum = partial_sum D distances',
          centers = assignCenter bestCandidateId dim' data (centers st) (c * dim'),
          proc = perform_callback callback (proc st)\<rparr>)"

text \<open>
  Lines 100 to 135: the first center, drawn uniformly among the frames, its callback,
  the distances of all frames to it and their prefix sums. The fresh center array is
  uninitialised in C++; the model fills it with zeros, and every element of it is
  overwritten before the seeder returns.
\<close>

definition seeding_init ::
  "('g, 'w) deps \<Rightarrow> real list \<Rightarrow> nat \<Rightarrow> nat \<Rightarrow> nat \<Rightarrow> ('w \<Rightarrow> 'r \<times> 'w) option \<Rightarrow> 'g \<Rightarrow>
   'w process \<Rightarrow> ('g, 'w) seeding_state" where
  "seeding_init D data k nFrames dim' callback g P =
     (case uniform D (nFrames - 1) g of (firstCenterIx, g') \<Rightarrow>
        (let centers1 = assignCenter firstCenterIx dim' data (replicate (k * dim') 0) 0;
             P' = perform_callback callback P;
             distances1 = computeDistances D centers1 1 data nFrames dim';
             cumsum = partial_sum D distances1
         in \<lparr>generator = g',
             currentPotential = last cumsum,
             distances = distances1,
             distancesCumsum = cumsum,
             centers = centers1,
             proc = P'\<rparr>))"

text \<open>The state after the rounds \<open>c = 1, \<dots>, m\<close>.\<close>

definition seeding_rounds ::
  "('g, 'w) deps \<Rightarrow> real list \<Rightarrow> nat \<Rightarrow> nat \<Rightarrow> nat \<Rightarrow> ('w \<Rightarrow> 'r \<times> 'w) option \<Rightarrow> nat \<Rightarrow>
   ('g, 'w) seeding_state \<Rightarrow> ('g, 'w) seeding_state" where
  "seeding_rounds D data nFrames dim' nTrials callback m st =
     fold (seeding_round D data nFrames dim' nTrials callback) [1..<Suc m] st"

definition initial_generator :: "('g, 'w) deps \<Rightarrow> int \<Rightarrow> 'w process \<Rightarrow> 'g" where
  "initial_generator D seed P =
     (if seed < 0 then randomlySeededGenerator D (external P) else seededGenerator D seed)"

text \<open>
  The state of the seeder after \<open>m\<close> rounds, for a call that has passed the checks:
  \<open>P\<close> is the process state after \<open>omp_set_num_threads\<close>.
\<close>

definition seeding_state_after ::
  "('g, 'w) deps \<Rightarrow> np_array \<Rightarrow> nat \<Rightarrow> int \<Rightarrow> ('w \<Rightarrow> 'r \<times> 'w) option \<Rightarrow> 'w process \<Rightarrow> nat \<Rightarrow>
   ('g, 'w) seeding_state" where
  "seeding_state_after D data k seed callback P m =
     (let dim' = shape data ! 1; nFrames = shape data ! 0
      in seeding_rounds D (buf data) nFrames dim' (nTrials_of k) callback m
           (seeding_init D (buf data) k nFrames dim' callback (initial_generator D seed P) P))"

definition set_num_threads :: "('g, 'w) deps \<Rightarrow> int \<Rightarrow> 'w process \<Rightarrow> 'w process" where
  "set_num_threads D n_threads P = (if USE_OPENMP D then P\<lparr>omp_num_threads := n_threads\<rparr> else P)"

text \<open>
  \<open>initKmeansPlusPlus\<close>: the outcome and the process state it leaves. With \<open>k = 0\<close>
  the conversion of \<open>2 + log(0)\<close> to \<open>std::size_t\<close> has no defined value.
\<close>

definition initKmeansPlusPlus ::
  "('g, 'w) deps \<Rightarrow> np_array \<Rightarrow> nat \<Rightarrow> int \<Rightarrow> int \<Rightarrow> ('w \<Rightarrow> 'r \<times> 'w) option \<Rightarrow> 'w process \<Rightarrow>
   (error + np_array) \<times> 'w process" where
  "initKmeansPlusPlus D data k seed n_threads callback P =
     (case shape_at data 0 of
        Inl e \<Rightarrow> (Inl e, P)
      | Inr n0 \<Rightarrow>
          if n0 < k then (Inl (invalid_argument (not_enough_data n0 k)), P)
          else
            (let P1 = set_num_threads D n_threads P
             in if ndim data \<noteq> 2 then (Inl (invalid_argument not_two_dimensions), P1)
                else if k = 0 then (Inl undefined_behaviour, P1)
                else
                  (let st = seeding_state_after D data k seed callback P1 (k - 1)
                   in (Inr \<lparr>shape = [k, shape data ! 1], buf = centers st\<rparr>, proc st))))"

section \<open>Notions used to state the properties\<close>

text \<open>Row \<open>i\<close> of a two-dimensional array, and the list of its rows.\<close>

definition row :: "np_array \<Rightarrow> nat \<Rightarrow> real list" where
  "row a i = slice (buf a) (i * (shape a ! 1)) (shape a ! 1)"

definition rows :: "np_array \<Rightarrow> real list list" where
  "rows a = map (row a) [0..<shape a ! 0]"

text \<open>A two-dimensional array whose buffer has one element per cell.\<close>

definition two_dimensional :: "np_array \<Rightarrow> bool" where
  "two_dimensional a \<longleftrightarrow> ndim a = 2 \<and> length (buf a) = shape a ! 0 * shape a ! 1"

text \<open>What the standard library promises of the two distributions.\<close>

definition distributions_in_range :: "('g, 'w) deps \<Rightarrow> bool" where
  "distributions_in_range D \<longleftrightarrow>
     (\<forall>b g. fst (uniform D b g) \<le> b) \<and>
     (\<forall>g. 0 \<le> fst (uniformReal D g) \<and> fst (uniformReal D g) < 1)"



text \<open>A metric that gives 0 between a point and itself.\<close>

definition metric_reflexive :: "('g, 'w) deps \<Rightarrow> bool" where
  "metric_reflexive D \<longleftrightarrow> (\<forall>x. compute_squared_d D x x = 0)"


text \<open>What a progress capability may answer, in the spec's words.\<close>

datatype progress = Continue | Cancel

text \<open>
  A candidate's updated potential as the spec words it: per point, the minimum of its
  current potential and its distance to the candidate.
\<close>

definition updated_potential ::
  "('g, 'w) deps \<Rightarrow> real list \<Rightarrow> nat \<Rightarrow> nat \<Rightarrow> real list \<Rightarrow> nat \<Rightarrow> real list" where
  "updated_potential D data N d potential cid =
     map (\<lambda>f. min (potential ! f)
               (compute_squared_d D (slice data (cid * d) d) (slice data (f * d) d)))
       [0..<N]"

text \<open>
  What holds of the loop variables between the rounds: one potential per frame, the
  prefix sums of these potentials, and a center array of \<open>k\<close> rows.
\<close>

definition state_shape :: "('g, 'w) deps \<Rightarrow> nat \<Rightarrow> nat \<Rightarrow> nat \<Rightarrow> ('g, 'w) seeding_state \<Rightarrow> bool" where
  "state_shape D N d k st \<longleftrightarrow>
     length (distances st) = N \<and> distancesCumsum st = partial_sum D (distances st) \<and>
     length (centers st) = k * d"

text \<open>The frame that a round makes the next center: the best of its candidates.\<close>

definition bestCandidateId_of ::
  "('g, 'w) deps \<Rightarrow> real list \<Rightarrow> nat \<Rightarrow> nat \<Rightarrow> nat \<Rightarrow> ('g, 'w) seeding_state \<Rightarrow> nat" where
  "bestCandidateId_of D data N d n st =
     candidatesIds_of D N n st ! min_element (candidatesPotentials_of D data N d n st)"

text \<open>
  The frames that a valid call makes centers, in the order of the rows it returns:
  the first draw, then the best candidate of every round.
\<close>

definition chosen_frames ::
  "('g, 'w) deps \<Rightarrow> np_array \<Rightarrow> nat \<Rightarrow> int \<Rightarrow> ('w \<Rightarrow> 'r \<times> 'w) option \<Rightarrow> 'w process \<Rightarrow> nat list" where
  "chosen_frames D data k seed callback P =
     fst (uniform D (shape data ! 0 - 1) (initial_generator D seed P)) #
     map (\<lambda>c. bestCandidateId_of D (buf data) (shape data ! 0) (shape data ! 1) (nTrials_of k)
                (seeding_state_after D data k seed callback P (c - 1)))
       [1..<k]"

text \<open>The loop variables of a state, without the process state.\<close>

definition loop_variables ::
  "('g, 'w) seeding_state \<Rightarrow> 'g \<times> real \<times> real list \<times> real list \<times> real list" where
  "loop_variables st =
     (generator st, currentPotential st, distances st, distancesCumsum st, centers st)"

text \<open>A callback that asks for cancellation every time, and counts its invocations.\<close>

definition always_cancel :: "nat \<Rightarrow> progress \<times> nat" where
  "always_cancel n = (Cancel, Suc n)"

section \<open>An instance of the parameters\<close>

text \<open>The squared Euclidean distance of two points, as a real number.\<close>

definition squared_euclidean :: "real list \<Rightarrow> real list \<Rightarrow> real" where
  "squared_euclidean x y = sum_list (map (\<lambda>(a, b). (a - b) * (a - b)) (zip x y))"

text \<open>
  Modelled from the spec: the Euclidean metric is defined in \<open>metric.h\<close>, which is
  missing. By the spec it gives the squared Euclidean distance of two points; here it
  gives that distance rounded to the element type.
\<close>

definition euclidean_metric :: "floating \<Rightarrow> real list \<Rightarrow> real list \<Rightarrow> real" where
  "euclidean_metric t x y = round_dtype t (squared_euclidean x y)"

text \<open>
  Modelled from the spec: the assignment engine is declared in \<open>kmeans.h\<close> and defined
  in \<open>bits/kmeans_bits.h\<close>, which is missing. By the spec it returns each point's
  nearest-center index.
\<close>

definition nearest_center_assignments :: "np_array \<Rightarrow> np_array \<Rightarrow> int \<Rightarrow> error + nat list" where
  "nearest_center_assignments np_data np_centers n_threads =
     Inr (map (\<lambda>i. min_element (map (\<lambda>c. squared_euclidean (row np_data i) (row np_centers c))
                                   [0..<shape np_centers ! 0]))
            [0..<shape np_data ! 0])"

text \<open>
  Modelled from the spec: the cost overload that takes assignments is declared in
  \<open>kmeans.h\<close> and defined in \<open>bits/kmeans_bits.h\<close>, which is missing. By the spec it is
  the sum over all points of the squared distance to the assigned center.
\<close>

definition assigned_cost :: "np_array \<Rightarrow> np_array \<Rightarrow> nat list \<Rightarrow> int \<Rightarrow> error + real" where
  "assigned_cost np_data np_centers assignments n_threads =
     Inr (sum_list (map (\<lambda>i. squared_euclidean (row np_data i) (row np_centers (assignments ! i)))
                     [0..<shape np_data ! 0]))"

text \<open>
  An instantiation with \<open>double\<close> and a generator whose state counts the draws made so
  far: the integer draw is the state reduced to the range, the real draw is read from a
  table \<open>draws\<close>.
\<close>

definition counter_deps :: "bool \<Rightarrow> (nat \<Rightarrow> real) \<Rightarrow> (nat, 'w) deps" where
  "counter_deps openmp draws =
     \<lparr>USE_OPENMP = openmp,
      dtype = float64,
      seededGenerator = nat,
      randomlySeededGenerator = (\<lambda>w. 0),
      uniform = (\<lambda>b g. (g mod (b + 1), g + 1)),
      uniformReal = (\<lambda>g. (draws g, g + 1)),
      compute_squared_d = euclidean_metric float64,
      assign_chunk_to_centers = nearest_center_assignments,
      costFunction_assigned = assigned_cost\<rparr>"

text \<open>Draws that cycle through \<open>0, 1/4, 1/2, 3/4\<close>, and draws that are all 0.\<close>

definition quarter_draws :: "nat \<Rightarrow> real" where
  "quarter_draws g = real (g mod 4) / 4"

definition zero_draws :: "nat \<Rightarrow> real" where
  "zero_draws g = 0"

text \<open>Draws that are \<open>2 ^ - 58\<close> first and \<open>2 ^ - 56\<close> from then on.\<close>

definition tiny_draws :: "nat \<Rightarrow> real" where
  "tiny_draws g = (if g \<le> 1 then 1 / 2 ^ 58 else 1 / 2 ^ 56)"

text \<open>
  Four frames on a line, one of them \<open>2 ^ 29\<close> away from the others, and five such
  frames.
\<close>

definition far_point_4 :: np_array where
  "far_point_4 = \<lparr>shape = [4, 1], buf = [0, 536870912, 5, - 5]\<rparr>"

definition far_point_5 :: np_array where
  "far_point_5 = \<lparr>shape = [5, 1], buf = [0, 2, 5, - 5, - 536870912]\<rparr>"

text \<open>
  Three different frames on a line that are so close to each other that the square of
  every difference is below the smallest positive number of \<open>float\<close> and of \<open>double\<close>.
\<close>

definition close_points :: np_array where
  "close_points = \<lparr>shape = [3, 1], buf = [0, 1 / 2 ^ 540, 1 / 2 ^ 539]\<rparr>"

section \<open>Rounding\<close>

lemma round_half_even_cases: "round_half_even q = \<lfloor>q\<rfloor> \<or> round_half_even q = \<lfloor>q\<rfloor> + 1"
  by (simp add: round_half_even_def Let_def)

lemma round_half_even_of_int: "round_half_even (of_int n) = n"
  by (simp add: round_half_even_def)

lemma round_half_even_mono:
  assumes "q \<le> q'"
  shows "round_half_even q \<le> round_half_even q'"
proof (cases "\<lfloor>q\<rfloor> = \<lfloor>q'\<rfloor>")
  case False
  then have "\<lfloor>q\<rfloor> < \<lfloor>q'\<rfloor>" using floor_mono[OF assms] by simp
  then have "\<lfloor>q\<rfloor> + 1 \<le> \<lfloor>q'\<rfloor>" by simp
  then show ?thesis
    using round_half_even_cases[of q] round_half_even_cases[of q'] by linarith
next
  case True
  then show ?thesis using assms by (auto simp: round_half_even_def Let_def)
qed

lemma round_half_even_nonneg: "0 \<le> q \<Longrightarrow> 0 \<le> round_half_even q"
  using round_half_even_mono[of 0 q] round_half_even_of_int[of 0] by simp

lemma round_to_precision_0: "round_to_precision p emin 0 = 0"
  by (simp add: round_to_precision_def)

text \<open>A positive number and the grid of its binade.\<close>

lemma grid_bounds:
  assumes "0 < x" "e = max \<lfloor>log 2 x\<rfloor> emin" "u = 2 powr of_int (e - int p + 1)"
  shows "0 < u" "x / u < 2 ^ p" "emin \<le> \<lfloor>log 2 x\<rfloor> \<Longrightarrow> 2 ^ (p - 1) \<le> x / u \<or> p = 0"
proof -
  show u: "0 < u" by (simp add: assms(3))
  have fl: "2 powr of_int \<lfloor>log 2 x\<rfloor> \<le> x" "x < 2 powr (of_int \<lfloor>log 2 x\<rfloor> + 1)"
    using floor_log_eq_powr_iff[of x 2 "\<lfloor>log 2 x\<rfloor>"] assms(1) by simp_all
  have "x < 2 powr (of_int e + 1)"
  proof -
    have "of_int \<lfloor>log 2 x\<rfloor> + 1 \<le> (of_int e + 1 :: real)" by (simp add: assms(2))
    then have "2 powr (of_int \<lfloor>log 2 x\<rfloor> + 1) \<le> (2::real) powr (of_int e + 1)"
      by (intro powr_mono) simp_all
    with fl(2) show ?thesis by (rule less_le_trans)
  qed
  also have "(2::real) powr (of_int e + 1) = 2 powr real p * u"
    by (simp add: assms(3) powr_add[symmetric])
  also have "\<dots> = 2 ^ p * u" by (simp add: powr_realpow)
  finally show "x / u < 2 ^ p" using u by (simp add: divide_less_eq)
  show "2 ^ (p - 1) \<le> x / u \<or> p = 0" if normal: "emin \<le> \<lfloor>log 2 x\<rfloor>"
  proof (cases "p = 0")
    case True then show ?thesis by simp
  next
    case False
    have e: "e = \<lfloor>log 2 x\<rfloor>" using normal by (simp add: assms(2))
    have "(2::real) ^ (p - 1) * u = 2 powr real (p - 1) * u" by (simp add: powr_realpow)
    also have "\<dots> = 2 powr of_int e"
      using False by (simp add: assms(3) powr_add[symmetric] of_nat_diff)
    also have "\<dots> \<le> x" using fl(1) e by simp
    finally show ?thesis using u by (simp add: le_divide_eq)
  qed
qed

lemma round_to_precision_pos_bounds:
  assumes "0 < x" "e = max \<lfloor>log 2 x\<rfloor> emin"
  shows "0 \<le> round_to_precision p emin x"
    and "round_to_precision p emin x \<le> 2 powr (of_int e + 1)"
    and "emin \<le> \<lfloor>log 2 x\<rfloor> \<Longrightarrow> 0 < p \<Longrightarrow> 2 powr of_int e \<le> round_to_precision p emin x"
proof -
  define u :: real where "u = 2 powr of_int (e - int p + 1)"
  note g = grid_bounds[OF assms(1,2) u_def]
  have r: "round_to_precision p emin x = of_int (round_half_even (x / u)) * u"
    using assms by (simp add: round_to_precision_def Let_def u_def)
  have "0 \<le> x / u" using assms(1) g(1) by simp
  then have "0 \<le> round_half_even (x / u)" by (rule round_half_even_nonneg)
  then show "0 \<le> round_to_precision p emin x" using g(1) by (simp add: r)
  have "round_half_even (x / u) \<le> round_half_even (of_int (2 ^ p))"
    using g(2) by (intro round_half_even_mono) simp
  then have "round_half_even (x / u) \<le> 2 ^ p" by (simp only: round_half_even_of_int)
  then have "(of_int (round_half_even (x / u)) :: real) \<le> of_int (2 ^ p)" by (simp only: of_int_le_iff)
  then have "of_int (round_half_even (x / u)) * u \<le> 2 ^ p * u"
    using g(1) by (intro mult_right_mono) simp_all
  also have "2 ^ p * u = 2 powr real p * u" by (simp add: powr_realpow)
  also have "\<dots> = 2 powr (of_int e + 1)" by (simp add: u_def powr_add[symmetric])
  finally show "round_to_precision p emin x \<le> 2 powr (of_int e + 1)" by (simp add: r)
  show "2 powr of_int e \<le> round_to_precision p emin x" if normal: "emin \<le> \<lfloor>log 2 x\<rfloor>" and p: "0 < p"
  proof -
    have "2 ^ (p - 1) \<le> x / u" using g(3)[OF normal] p by simp
    then have "round_half_even (of_int (2 ^ (p - 1))) \<le> round_half_even (x / u)"
      by (intro round_half_even_mono) simp
    then have "2 ^ (p - 1) \<le> round_half_even (x / u)" by (simp only: round_half_even_of_int)
    then have "(of_int (2 ^ (p - 1)) :: real) \<le> of_int (round_half_even (x / u))" by (simp only: of_int_le_iff)
    then have "2 ^ (p - 1) * u \<le> of_int (round_half_even (x / u)) * u"
      using g(1) by (intro mult_right_mono) simp_all
    moreover have "(2::real) ^ (p - 1) * u = 2 powr of_int e"
    proof -
      have "(2::real) ^ (p - 1) * u = 2 powr real (p - 1) * u" by (simp add: powr_realpow)
      also have "\<dots> = 2 powr of_int e" using p by (simp add: u_def powr_add[symmetric] of_nat_diff)
      finally show ?thesis .
    qed
    ultimately show ?thesis by (simp add: r)
  qed
qed

lemma round_to_precision_mono:
  assumes "0 \<le> x" "x \<le> y" "0 < p"
  shows "round_to_precision p emin x \<le> round_to_precision p emin y"
proof (cases "x = 0")
  case True
  show ?thesis
  proof (cases "y = 0")
    case True with \<open>x = 0\<close> show ?thesis by simp
  next
    case False
    then have "0 < y" using assms by simp
    from round_to_precision_pos_bounds(1)[OF this refl] show ?thesis
      using \<open>x = 0\<close> by (simp add: round_to_precision_0)
  qed
next
  case False
  then have x: "0 < x" and y: "0 < y" using assms by simp_all
  define ex where "ex = max \<lfloor>log 2 x\<rfloor> emin"
  define ey where "ey = max \<lfloor>log 2 y\<rfloor> emin"
  have "log 2 x \<le> log 2 y" using x assms(2) by simp
  then have fl: "\<lfloor>log 2 x\<rfloor> \<le> \<lfloor>log 2 y\<rfloor>" by (rule floor_mono)
  then have le: "ex \<le> ey" unfolding ex_def ey_def by linarith
  show ?thesis
  proof (cases "ex = ey")
    case True
    define u :: real where "u = 2 powr of_int (ex - int p + 1)"
    have u: "0 < u" by (simp add: u_def)
    have rx: "round_to_precision p emin x = of_int (round_half_even (x / u)) * u"
      using x by (simp add: round_to_precision_def Let_def u_def ex_def)
    have ry: "round_to_precision p emin y = of_int (round_half_even (y / u)) * u"
      using y True by (simp add: round_to_precision_def Let_def u_def ex_def ey_def)
    have "x / u \<le> y / u" using assms(2) u by (simp add: divide_right_mono)
    then have "round_half_even (x / u) \<le> round_half_even (y / u)" by (rule round_half_even_mono)
    then show ?thesis unfolding rx ry using u by (intro mult_right_mono) simp_all
  next
    case False
    then have lt: "ex < ey" using le by simp
    then have normal: "emin \<le> \<lfloor>log 2 y\<rfloor>" by (auto simp: ex_def ey_def max_def split: if_splits)
    have "round_to_precision p emin x \<le> 2 powr (of_int ex + 1)"
      using round_to_precision_pos_bounds(2)[OF x ex_def] .
    also have "\<dots> \<le> 2 powr of_int ey"
    proof -
      have "of_int ex + 1 \<le> (of_int ey :: real)" using lt by linarith
      then show ?thesis by (intro powr_mono) simp_all
    qed
    also have "\<dots> \<le> round_to_precision p emin y"
      using round_to_precision_pos_bounds(3)[OF y ey_def normal assms(3)] .
    finally show ?thesis .
  qed
qed


lemma round_to_precision_fixes_small_multiple:
  assumes "0 < n" "n < 2 ^ p" "emin - int p + 1 \<le> i"
  shows "round_to_precision p emin (of_int n * 2 powr of_int i) = of_int n * 2 powr of_int i"
proof -
  define x :: real where "x = of_int n * 2 powr of_int i"
  have x: "0 < x" using assms(1) by (simp add: x_def)
  define e where "e = max \<lfloor>log 2 x\<rfloor> emin"
  define u :: real where "u = 2 powr of_int (e - int p + 1)"
  have "x < 2 ^ p * 2 powr of_int i"
  proof -
    have "(of_int n :: real) < of_int (2 ^ p)" using assms(2) by (simp only: of_int_less_iff)
    then show ?thesis unfolding x_def by (intro mult_strict_right_mono) simp_all
  qed
  also have "\<dots> = 2 powr (real p + of_int i)" by (simp add: powr_add powr_realpow)
  finally have "log 2 x < real p + of_int i"
    using x by (simp add: log_less_iff)
  then have "log 2 x < of_int (int p + i)" by simp
  then have "\<lfloor>log 2 x\<rfloor> < int p + i" by (simp only: floor_less_iff)
  then have le: "e - int p + 1 \<le> i" using assms(3) unfolding e_def by linarith
  define j where "j = nat (i - (e - int p + 1))"
  have ij: "i = (e - int p + 1) + int j" using le by (simp add: j_def)
  have pw: "(2::real) powr of_int i = 2 ^ j * u"
    unfolding u_def by (subst ij) (simp add: powr_add powr_realpow)
  have u: "0 < u" by (simp add: u_def)
  have "x / u = of_int (n * 2 ^ j)" using u by (simp add: x_def pw)
  then have "round_half_even (x / u) = n * 2 ^ j" by (simp only: round_half_even_of_int)
  then have "of_int (round_half_even (x / u)) * u = x" by (simp add: x_def pw)
  moreover have "round_to_precision p emin x = of_int (round_half_even (x / u)) * u"
    using x by (simp add: round_to_precision_def Let_def u_def e_def)
  ultimately show ?thesis by (simp add: x_def)
qed

lemma round_to_precision_fixes_multiple:
  assumes "0 \<le> n" "n \<le> 2 ^ p" "emin - int p + 1 \<le> i" "0 < p"
  shows "round_to_precision p emin (of_int n * 2 powr of_int i) = of_int n * 2 powr of_int i"
proof -
  consider "n = 0" | "0 < n" "n < 2 ^ p" | "n = 2 ^ p" using assms(1,2) by linarith
  then show ?thesis
  proof cases
    case 1 then show ?thesis by (simp add: round_to_precision_0)
  next
    case 2 then show ?thesis using assms(3) by (rule round_to_precision_fixes_small_multiple)
  next
    case 3
    have "(1::int) < 2 ^ p" using assms(4) by (simp add: one_less_power)
    then have "round_to_precision p emin (of_int 1 * 2 powr of_int (int p + i)) =
               of_int 1 * 2 powr of_int (int p + i)"
      using assms(3) by (intro round_to_precision_fixes_small_multiple) simp_all
    moreover have "of_int n * 2 powr of_int i = (of_int 1 * 2 powr of_int (int p + i) :: real)"
      by (simp add: 3 powr_add powr_realpow)
    ultimately show ?thesis by simp
  qed
qed

lemma round_to_precision_fixes_rounded:
  assumes "0 \<le> x" "0 < p" "p \<le> p'" "emin' - int p' \<le> emin - int p"
  shows "round_to_precision p' emin' (round_to_precision p emin x) = round_to_precision p emin x"
proof (cases "x = 0")
  case True then show ?thesis by (simp add: round_to_precision_0)
next
  case False
  then have x: "0 < x" using assms(1) by simp
  define e where "e = max \<lfloor>log 2 x\<rfloor> emin"
  define u :: real where "u = 2 powr of_int (e - int p + 1)"
  note g = grid_bounds[OF x e_def u_def]
  have r: "round_to_precision p emin x = of_int (round_half_even (x / u)) * 2 powr of_int (e - int p + 1)"
    using x by (simp add: round_to_precision_def Let_def u_def e_def)
  have "0 \<le> x / u" using x g(1) by simp
  then have n0: "0 \<le> round_half_even (x / u)" by (rule round_half_even_nonneg)
  have "round_half_even (x / u) \<le> round_half_even (of_int (2 ^ p))"
    using g(2) by (intro round_half_even_mono) simp
  then have "round_half_even (x / u) \<le> 2 ^ p" by (simp only: round_half_even_of_int)
  moreover have "(2::int) ^ p \<le> 2 ^ p'" using assms(3) by (intro power_increasing) simp_all
  ultimately have n1: "round_half_even (x / u) \<le> 2 ^ p'" by (rule order_trans)
  have "emin \<le> e" by (simp add: e_def)
  then have i: "emin' - int p' + 1 \<le> e - int p + 1" using assms(4) by linarith
  have p': "0 < p'" using assms(2,3) by simp
  show ?thesis unfolding r using n0 n1 i p' by (rule round_to_precision_fixes_multiple)
qed

lemma round_double_of_int:
  assumes "0 \<le> n" "n \<le> 2 ^ 53"
  shows "round_double (of_int n) = of_int n"
  using round_to_precision_fixes_multiple[of n 53 "- 1022" 0] assms by (simp add: round_double_def)

lemma round_double_dyadic:
  assumes "0 \<le> n" "n \<le> 2 ^ 53" "j \<le> 1074"
  shows "round_double (of_int n / 2 ^ j) = of_int n / 2 ^ j"
proof -
  have "(2::real) powr of_int (- int j) = 1 / 2 ^ j"
    by (simp add: powr_minus powr_realpow inverse_eq_divide)
  then show ?thesis
    using round_to_precision_fixes_multiple[of n 53 "- 1022" "- int j"] assms
    by (simp add: round_double_def)
qed

lemma round_double_binade:
  assumes "2 ^ k \<le> x" "x < 2 ^ Suc k" "52 \<le> k"
  shows "round_double x = of_int (round_half_even (x / 2 ^ (k - 52))) * 2 ^ (k - 52)"
proof -
  have x: "0 < x" using assms(1) by (rule less_le_trans[rotated]) simp
  have "\<lfloor>log 2 x\<rfloor> = int k"
    using floor_log_eq_powr_iff[of x 2 "int k"] x assms(1,2) by (simp add: powr_realpow powr_add)
  then have e: "max \<lfloor>log 2 \<bar>x\<bar>\<rfloor> (- 1022) = int k" using x by simp
  have "(2::real) powr of_int (int k - int 53 + 1) = 2 powr real (k - 52)"
    using assms(3) by (simp add: of_nat_diff)
  also have "\<dots> = 2 ^ (k - 52)" by (simp add: powr_realpow)
  finally have u: "(2::real) powr of_int (int k - int 53 + 1) = 2 ^ (k - 52)" .
  show ?thesis
    using x unfolding round_double_def round_to_precision_def Let_def e u by simp
qed

lemma round_to_precision_nonneg: "0 \<le> x \<Longrightarrow> 0 < p \<Longrightarrow> 0 \<le> round_to_precision p emin x"
  using round_to_precision_mono[of 0 x p emin] by (simp add: round_to_precision_0)

lemma round_to_precision_idem:
  "0 \<le> x \<Longrightarrow> 0 < p \<Longrightarrow>
   round_to_precision p emin (round_to_precision p emin x) = round_to_precision p emin x"
  by (rule round_to_precision_fixes_rounded) simp_all

lemma round_to_precision_underflow:
  assumes "0 \<le> x" "x < 2 powr of_int (emin - int p)"
  shows "round_to_precision p emin x = 0"
proof (cases "x = 0")
  case True then show ?thesis by (simp add: round_to_precision_0)
next
  case False
  then have x: "0 < x" using assms(1) by simp
  have "log 2 x < of_int (emin - int p)"
    using assms(2) x by (simp add: log_less_iff)
  then have "\<lfloor>log 2 x\<rfloor> < emin - int p" by (simp add: floor_less_iff)
  then have e: "max \<lfloor>log 2 \<bar>x\<bar>\<rfloor> emin = emin" using x by simp
  define u :: real where "u = 2 powr of_int (emin - int p + 1)"
  have u: "0 < u" by (simp add: u_def)
  have "u = 2 * 2 powr of_int (emin - int p)"
    unfolding u_def by (simp add: powr_add)
  then have "x < u / 2" using assms(2) by simp
  then have q: "0 < x / u" "x / u < 1 / 2" using x u by (simp_all add: field_simps)
  have "0 \<le> x / u" "x / u < 1" using q by linarith+
  then have "\<lfloor>x / u\<rfloor> = 0" by (simp add: floor_eq_iff)
  then have "round_half_even (x / u) = 0" using q by (simp add: round_half_even_def)
  then show ?thesis
    using False unfolding round_to_precision_def Let_def e u_def by simp
qed

lemma round_dtype_0: "round_dtype t 0 = 0"
  by (cases t) (simp_all add: round_float_def round_double_def round_to_precision_0)

lemma round_dtype_mono: "0 \<le> x \<Longrightarrow> x \<le> y \<Longrightarrow> round_dtype t x \<le> round_dtype t y"
  by (cases t) (simp_all add: round_float_def round_double_def round_to_precision_mono)

lemma round_dtype_nonneg: "0 \<le> x \<Longrightarrow> 0 \<le> round_dtype t x"
  using round_dtype_mono[of 0 x t] by (simp add: round_dtype_0)

lemma round_dtype_idem: "0 \<le> x \<Longrightarrow> round_dtype t (round_dtype t x) = round_dtype t x"
  by (cases t) (simp_all add: round_float_def round_double_def round_to_precision_idem)


lemma round_dtype_underflow:
  assumes "0 \<le> x" "x < 1 / 2 ^ 1075"
  shows "round_dtype t x = 0"
proof (cases t)
  case float32
  have "(1::real) / 2 ^ 1075 \<le> 1 / 2 ^ 150"
    by (intro divide_left_mono power_increasing) simp_all
  also have "\<dots> = 2 powr of_int (- 126 - int 24)"
    by (simp add: powr_minus_divide powr_realpow)
  finally have "x < 2 powr of_int (- 126 - int 24)" using assms(2) by simp
  with assms(1) show ?thesis
    unfolding float32 round_dtype.simps round_float_def by (rule round_to_precision_underflow)
next
  case float64
  have "(1::real) / 2 ^ 1075 = 2 powr of_int (- 1022 - int 53)"
    by (simp add: powr_minus_divide powr_realpow)
  then have "x < 2 powr of_int (- 1022 - int 53)" using assms(2) by simp
  with assms(1) show ?thesis
    unfolding float64 round_dtype.simps round_double_def by (rule round_to_precision_underflow)
qed

lemma round_double_0: "round_double 0 = 0"
  by (simp add: round_double_def round_to_precision_0)

lemma round_double_mono: "0 \<le> x \<Longrightarrow> x \<le> y \<Longrightarrow> round_double x \<le> round_double y"
  by (simp add: round_double_def round_to_precision_mono)

lemma round_double_1: "round_double 1 = 1"
  using round_double_of_int[of 1] by simp

lemma round_double_numeral: "numeral n \<le> (2::int) ^ 53 \<Longrightarrow> round_double (numeral n) = numeral n"
  using round_double_of_int[of "numeral n"] by simp

lemma round_double_numeral_half:
  "numeral n \<le> (2::int) ^ 53 \<Longrightarrow> round_double (numeral n / 2) = numeral n / 2"
  using round_double_dyadic[of "numeral n" 1] by simp

lemma round_double_numeral_quarter:
  "numeral n \<le> (2::int) ^ 53 \<Longrightarrow> round_double (numeral n / 4) = numeral n / 4"
  using round_double_dyadic[of "numeral n" 2] by simp

lemma round_double_half: "round_double (1 / 2) = 1 / 2"
  using round_double_dyadic[of 1 1] by simp

lemma round_double_binade_58:
  assumes "288230376151711744 \<le> x" "x < 576460752303423488"
  shows "round_double x = of_int (round_half_even (x / 64)) * 64"
  using round_double_binade[of 58 x] assms by simp

lemma round_double_above_2_58:
  assumes "288230376151711744 \<le> x"
  shows "288230376151711744 \<le> round_double x"
proof -
  have "round_double (of_int 1 * 2 powr of_int 58) = of_int 1 * 2 powr of_int 58"
    unfolding round_double_def by (rule round_to_precision_fixes_multiple) simp_all
  moreover have "(2::real) powr of_int 58 = 288230376151711744"
    by (simp add: powr_realpow)
  ultimately have "round_double 288230376151711744 = 288230376151711744" by simp
  moreover have "round_double 288230376151711744 \<le> round_double x"
    using assms by (intro round_double_mono) simp_all
  ultimately show ?thesis by simp
qed

lemma round_half_even_eval:
  "round_half_even (288230376151711778 / 64) = 4503599627370497"
  "round_half_even (288230376151711773 / 64) = 4503599627370496"
  "round_half_even (288230376151711753 / 64) = 4503599627370496"
  "round_half_even (288230376151711769 / 64) = 4503599627370496"
  "round_half_even (288230376151711794 / 64) = 4503599627370497"
  "round_half_even (288230376151711798 / 64) = 4503599627370497"
  by (simp_all add: round_half_even_def)

section \<open>Buffers\<close>

lemma length_slice: "off + n \<le> length xs \<Longrightarrow> length (slice xs off n) = n"
  by (simp add: slice_def)

lemma length_slice_le: "length (slice xs off n) \<le> n"
  by (simp add: slice_def)

lemma nth_slice: "off + n \<le> length xs \<Longrightarrow> i < n \<Longrightarrow> slice xs off n ! i = xs ! (off + i)"
  by (simp add: slice_def)

lemma length_copy_into:
  "off + length src \<le> length dst \<Longrightarrow> length (copy_into dst off src) = length dst"
  by (simp add: copy_into_def)

lemma copy_into_whole: "length src = length dst \<Longrightarrow> copy_into dst 0 src = src"
  by (simp add: copy_into_def)

lemma slice_copy_into_same:
  "off + length src \<le> length dst \<Longrightarrow> slice (copy_into dst off src) off (length src) = src"
  by (simp add: copy_into_def slice_def)

lemma slice_copy_into_before:
  "off + length src \<le> length dst \<Longrightarrow> off' + n \<le> off \<Longrightarrow>
   slice (copy_into dst off src) off' n = slice dst off' n"
  by (simp add: copy_into_def slice_def take_drop)

lemma length_tabulate2: "length (tabulate2 m n f) = m * n"
  by (induction m) (simp_all add: tabulate2_def)

lemma tabulate2_Suc: "tabulate2 (Suc m) n f = tabulate2 m n f @ map (f m) [0..<n]"
  by (simp add: tabulate2_def)

lemma slice_tabulate2: "i < m \<Longrightarrow> slice (tabulate2 m n f) (i * n) n = map (f i) [0..<n]"
proof (induction m)
  case 0 then show ?case by simp
next
  case (Suc m)
  show ?case
  proof (cases "i < m")
    case True
    then have "i * n + n \<le> m * n"
      by (metis Suc_leI mult_Suc mult_le_mono1 add.commute)
    with Suc.IH[OF True] show ?thesis
      by (simp add: tabulate2_Suc slice_def length_tabulate2)
  next
    case False
    with Suc.prems have "i = m" by simp
    then show ?thesis by (simp add: tabulate2_Suc slice_def length_tabulate2)
  qed
qed

lemma nth_tabulate2: 
  assumes "i < m" "j < n" shows "tabulate2 m n f ! (i * n + j) = f i j"
proof -
  have "i * n + n \<le> m * n" using assms(1)
    by (metis Suc_leI mult_Suc mult_le_mono1 add.commute)
  then have "slice (tabulate2 m n f) (i * n) n ! j = tabulate2 m n f ! (i * n + j)"
    using assms(2) by (simp add: nth_slice length_tabulate2)
  then show ?thesis using assms by (simp add: slice_tabulate2)
qed

section \<open>Rounded sums\<close>

lemma length_partial_sum_acc: "length (partial_sum_acc D a xs) = length xs"
  by (induction xs arbitrary: a) simp_all

lemma length_partial_sum: "length (partial_sum D xs) = length xs"
  by (simp add: partial_sum_def length_partial_sum_acc split: list.splits)




lemma dtype_plus_nonneg: "0 \<le> a \<Longrightarrow> 0 \<le> b \<Longrightarrow> 0 \<le> dtype_plus D a b"
  by (simp add: dtype_plus_def round_dtype_nonneg)

lemma dtype_plus_fixed:
  "0 \<le> a \<Longrightarrow> 0 \<le> b \<Longrightarrow> round_dtype (dtype D) (dtype_plus D a b) = dtype_plus D a b"
  by (simp add: dtype_plus_def round_dtype_idem)

lemma dtype_plus_mono:
  "0 \<le> a \<Longrightarrow> a \<le> a' \<Longrightarrow> 0 \<le> b \<Longrightarrow> b \<le> b' \<Longrightarrow> dtype_plus D a b \<le> dtype_plus D a' b'"
  by (simp add: dtype_plus_def round_dtype_mono)


lemma dtype_plus_0_0: "dtype_plus D 0 0 = 0"
  by (simp add: dtype_plus_def round_dtype_0)

lemma dtype_plus_0_left: "round_dtype (dtype D) b = b \<Longrightarrow> dtype_plus D 0 b = b"
  by (simp add: dtype_plus_def)

lemma foldl_dtype_plus_nonneg_fixed:
  assumes "\<forall>x\<in>set xs. 0 \<le> x" "0 \<le> a" "round_dtype (dtype D) a = a"
  shows "0 \<le> foldl (dtype_plus D) a xs \<and>
         round_dtype (dtype D) (foldl (dtype_plus D) a xs) = foldl (dtype_plus D) a xs"
  using assms
proof (induction xs arbitrary: a)
  case Nil then show ?case by simp
next
  case (Cons x xs)
  have "0 \<le> dtype_plus D a x" "round_dtype (dtype D) (dtype_plus D a x) = dtype_plus D a x"
    using Cons.prems by (simp_all add: dtype_plus_nonneg dtype_plus_fixed)
  then show ?case using Cons.IH[of "dtype_plus D a x"] Cons.prems(1) by simp
qed

lemma foldl_dtype_plus_mono:
  assumes "length xs = length ys" "\<forall>i<length xs. 0 \<le> xs ! i \<and> xs ! i \<le> ys ! i" "0 \<le> a" "a \<le> b"
  shows "foldl (dtype_plus D) a xs \<le> foldl (dtype_plus D) b ys"
  using assms
proof (induction xs ys arbitrary: a b rule: list_induct2)
  case Nil then show ?case by simp
next
  case (Cons x xs y ys)
  have h: "0 \<le> x" "x \<le> y" using Cons.prems(1) by auto
  have t: "\<forall>i<length xs. 0 \<le> xs ! i \<and> xs ! i \<le> ys ! i" using Cons.prems(1) by auto
  have "dtype_plus D a x \<le> dtype_plus D b y" "0 \<le> dtype_plus D a x"
    using h Cons.prems(2,3) by (simp_all add: dtype_plus_mono dtype_plus_nonneg)
  then show ?case using Cons.IH[OF t, of "dtype_plus D a x" "dtype_plus D b y"] by simp
qed

lemma foldl_dtype_plus_zeros: "\<forall>x\<in>set xs. x = 0 \<Longrightarrow> foldl (dtype_plus D) 0 xs = 0"
  by (induction xs) (simp_all add: dtype_plus_0_0)

lemma foldl_dtype_plus_head:
  "round_dtype (dtype D) x = x \<Longrightarrow> foldl (dtype_plus D) 0 (x # xs) = foldl (dtype_plus D) x xs"
  by (simp add: dtype_plus_0_left)

lemma set_slice: "set (slice xs off n) \<subseteq> set xs"
  unfolding slice_def by (meson set_take_subset set_drop_subset subset_trans)

lemma omp_reduction_sum_zeros:
  assumes "\<forall>x\<in>set xs. x = 0"
  shows "omp_reduction_sum D T xs = 0"
proof -
  have "foldl (dtype_plus D) 0 (slice xs off n) = 0" for off n
    using assms set_slice[of xs off n] by (intro foldl_dtype_plus_zeros) auto
  then show ?thesis
    by (simp add: omp_reduction_sum_def Let_def foldl_dtype_plus_zeros)
qed

lemma reduction_sum_zeros: "\<forall>x\<in>set xs. x = 0 \<Longrightarrow> reduction_sum D P xs = 0"
  by (simp add: reduction_sum_def omp_reduction_sum_zeros foldl_dtype_plus_zeros)



lemma omp_reduction_sum_one_thread:
  assumes "\<forall>x\<in>set xs. 0 \<le> x"
  shows "omp_reduction_sum D 1 xs = foldl (dtype_plus D) 0 xs"
proof -
  have "omp_reduction_sum D 1 xs = dtype_plus D 0 (foldl (dtype_plus D) 0 xs)"
    by (simp add: omp_reduction_sum_def slice_def)
  also have "\<dots> = foldl (dtype_plus D) 0 xs"
    using foldl_dtype_plus_nonneg_fixed[OF assms, of 0 D]
    by (intro dtype_plus_0_left) (simp add: round_dtype_0)
  finally show ?thesis .
qed

lemma reduction_sum_one_thread:
  assumes "\<forall>x\<in>set xs. 0 \<le> x" "team_size D P = 1"
  shows "reduction_sum D P xs = foldl (dtype_plus D) 0 xs"
  using omp_reduction_sum_one_thread[OF assms(1), of D] assms(2) by (simp add: reduction_sum_def)



section \<open>The standard algorithms\<close>

lemma lower_bound_loop_bounds:
  "first \<le> lower_bound_loop xs first len v \<and> lower_bound_loop xs first len v \<le> first + len"
proof (induction xs first len v rule: lower_bound_loop.induct)
  case (1 xs first len v)
  show ?case
  proof (cases "0 < len")
    case False
    then have "lower_bound_loop xs first len v = first"
      by (subst lower_bound_loop.simps) simp
    with False show ?thesis by simp
  next
    case True
    note pos = this
    show ?thesis
    proof (cases "xs ! (first + len div 2) < v")
      case True
      have "lower_bound_loop xs first len v =
            lower_bound_loop xs (first + len div 2 + 1) (len - (len div 2 + 1)) v"
        using pos True by (simp add: lower_bound_loop.simps[of xs first len v] Let_def)
      with "1.IH"(1)[OF pos refl refl True] pos show ?thesis by auto
    next
      case False
      have "lower_bound_loop xs first len v = lower_bound_loop xs first (len div 2) v"
        using pos False by (simp add: lower_bound_loop.simps[of xs first len v] Let_def)
      with "1.IH"(2)[OF pos refl refl False] pos show ?thesis by auto
    qed
  qed
qed


lemma min_element_loop_props:
  assumes "smallest < i" "i \<le> length xs"
    "\<forall>j<i. xs ! smallest \<le> xs ! j" "\<forall>j<smallest. xs ! smallest < xs ! j"
  shows "min_element_loop xs smallest i < length xs \<and>
         (\<forall>j<length xs. xs ! min_element_loop xs smallest i \<le> xs ! j) \<and>
         (\<forall>j<min_element_loop xs smallest i. xs ! min_element_loop xs smallest i < xs ! j)"
  using assms
proof (induction xs smallest i rule: min_element_loop.induct)
  case (1 xs smallest i)
  show ?case
  proof (cases "i < length xs")
    case False
    then have "min_element_loop xs smallest i = smallest"
      by (subst min_element_loop.simps) simp
    with False "1.prems" show ?thesis by simp
  next
    case True
    define s' where "s' = (if xs ! i < xs ! smallest then i else smallest)"
    have eq: "min_element_loop xs smallest i = min_element_loop xs s' (i + 1)"
      using True by (simp add: min_element_loop.simps[of xs smallest i] s'_def)
    have a: "s' < i + 1" using "1.prems" by (simp add: s'_def)
    have b: "i + 1 \<le> length xs" using True by simp
    have c: "\<forall>j<i + 1. xs ! s' \<le> xs ! j"
    proof (intro allI impI)
      fix j assume "j < i + 1"
      then consider "j < i" | "j = i" by linarith
      then show "xs ! s' \<le> xs ! j"
        using "1.prems"(3) by cases (auto simp: s'_def)
    qed
    have d: "\<forall>j<s'. xs ! s' < xs ! j"
    proof (intro allI impI)
      fix j assume j: "j < s'"
      show "xs ! s' < xs ! j"
      proof (cases "xs ! i < xs ! smallest")
        case True
        then have "j < i" using j by (simp add: s'_def)
        then have "xs ! smallest \<le> xs ! j" using "1.prems"(3) by simp
        with True show ?thesis by (simp add: s'_def)
      next
        case False
        then show ?thesis using j "1.prems"(4) by (simp add: s'_def)
      qed
    qed
    from "1.IH"[OF True a[unfolded s'_def] b c[unfolded s'_def] d[unfolded s'_def]]
    show ?thesis unfolding eq s'_def .
  qed
qed

lemma min_element_props:
  assumes "xs \<noteq> []"
  shows "min_element xs < length xs"
    and "\<forall>j<length xs. xs ! min_element xs \<le> xs ! j"
    and "\<forall>j<min_element xs. xs ! min_element xs < xs ! j"
proof -
  have len: "1 \<le> length xs" using assms by (cases xs) simp_all
  have base: "\<forall>j<1. xs ! 0 \<le> xs ! j" by simp
  have "min_element_loop xs 0 1 < length xs \<and>
         (\<forall>j<length xs. xs ! min_element_loop xs 0 1 \<le> xs ! j) \<and>
         (\<forall>j<min_element_loop xs 0 1. xs ! min_element_loop xs 0 1 < xs ! j)"
    by (rule min_element_loop_props) (use len in simp_all)
  then show "min_element xs < length xs"
    and "\<forall>j<length xs. xs ! min_element xs \<le> xs ! j"
    and "\<forall>j<min_element xs. xs ! min_element xs < xs ! j"
    using assms by (simp_all add: min_element_def)
qed

lemma generate_Suc:
  "generate (Suc n) gen g =
     (fst (gen g) # fst (generate n gen (snd (gen g))), snd (generate n gen (snd (gen g))))"
  by (simp split: prod.splits)

lemma length_generate: "length (fst (generate n gen g)) = n"
  by (induction n arbitrary: g) (simp_all add: generate_Suc del: generate.simps(2))

lemma snd_generate: "snd (generate n gen g) = ((\<lambda>g. snd (gen g)) ^^ n) g"
proof (induction n arbitrary: g)
  case 0 then show ?case by simp
next
  case (Suc n)
  have "snd (generate (Suc n) gen g) = ((\<lambda>g. snd (gen g)) ^^ n) (snd (gen g))"
    using Suc by (simp add: generate_Suc del: generate.simps(2))
  also have "\<dots> = ((\<lambda>g. snd (gen g)) ^^ Suc n) g"
    using funpow_swap1[of "\<lambda>g. snd (gen g)" n g] by simp
  finally show ?case .
qed


lemma nTrials_of_ge_2: "1 \<le> k \<Longrightarrow> 2 \<le> nTrials_of k"
proof -
  assume "1 \<le> k"
  then have "0 \<le> ln (real k)" by simp
  then have "2 \<le> \<lfloor>2 + ln (real k)\<rfloor>" by (simp add: le_floor_iff)
  then show ?thesis unfolding nTrials_of_def by linarith
qed

lemma nTrials_of_1: "nTrials_of 1 = 2" by (simp add: nTrials_of_def)

lemma nTrials_of_2: "nTrials_of 2 = 2"
proof -
  have "ln (2::real) < 1" using ln_2_less_1 by simp
  moreover have "0 < ln (2::real)" by simp
  ultimately have "\<lfloor>2 + ln (2::real)\<rfloor> = 2" by linarith
  then show ?thesis by (simp add: nTrials_of_def)
qed


section \<open>One round of the seeder\<close>

lemma std_min_eq: "std_min a b = min b a"
  by (simp add: std_min_def min_def)

lemma length_find_candidates: "length (find_candidates cs N it ts) = length ts"
  by (induction ts arbitrary: it) (simp_all add: Let_def)

lemma lower_bound_le: "first \<le> last' \<Longrightarrow> lower_bound xs first last' v \<le> last'"
  using lower_bound_loop_bounds[of first xs "last' - first" v] by (simp add: lower_bound_def)

lemma lower_bound_ge: "first \<le> lower_bound xs first last' v"
  using lower_bound_loop_bounds[of first xs "last' - first" v] by (simp add: lower_bound_def)

lemma find_candidates_bound:
  "length cs = N \<Longrightarrow> 0 < N \<Longrightarrow> it \<le> N \<Longrightarrow> cid \<in> set (find_candidates cs N it ts) \<Longrightarrow> cid < N"
proof (induction ts arbitrary: it)
  case Nil then show ?case by simp
next
  case (Cons t ts)
  have le: "lower_bound cs it (length cs) t \<le> N"
    using lower_bound_le[of it "length cs" cs t] Cons.prems by simp
  from Cons.prems(4) consider
    "cid = (if lower_bound cs it (length cs) t \<noteq> length cs then lower_bound cs it (length cs) t else N - 1)"
    | "cid \<in> set (find_candidates cs N (lower_bound cs it (length cs) t) ts)"
    by (auto simp: Let_def)
  then show ?case
  proof cases
    case 1 then show ?thesis using le Cons.prems by (auto split: if_splits)
  next
    case 2 then show ?thesis using Cons.IH[OF Cons.prems(1,2) le] by simp
  qed
qed

lemma length_trialValues_of: "length (trialValues_of D n st) = n"
  by (simp add: trialValues_of_def length_generate)

lemma length_candidatesIds_of: "length (candidatesIds_of D N n st) = n"
  by (simp add: candidatesIds_of_def length_find_candidates length_trialValues_of)

lemma candidatesIds_of_bound:
  assumes "length (distancesCumsum st) = N" "0 < N" "i < n"
  shows "candidatesIds_of D N n st ! i < N"
proof -
  have "candidatesIds_of D N n st ! i \<in> set (candidatesIds_of D N n st)"
    using assms(3) by (simp add: length_candidatesIds_of)
  then show ?thesis
    unfolding candidatesIds_of_def using find_candidates_bound[OF assms(1,2), of 0] by blast
qed

lemma slice_concat_rows:
  "(\<forall>x\<in>set xs. length (f x) = d) \<Longrightarrow> i < length xs \<Longrightarrow>
   slice (concat (map f xs)) (i * d) d = f (xs ! i)"
proof (induction xs arbitrary: i)
  case Nil then show ?case by simp
next
  case (Cons x xs)
  show ?case
  proof (cases i)
    case 0 then show ?thesis using Cons.prems by (simp add: slice_def)
  next
    case (Suc j)
    then have "slice (concat (map f (x # xs))) (i * d) d = slice (concat (map f xs)) (j * d) d"
      using Cons.prems by (simp add: slice_def)
    then show ?thesis using Cons Suc by simp
  qed
qed

lemma row_bound: "i < N \<Longrightarrow> i * d + d \<le> N * (d::nat)"
  by (metis Suc_leI mult_Suc mult_le_mono1 add.commute)

lemma slice_candidatesCoords_of:
  assumes "length data = N * d" "length (distancesCumsum st) = N" "0 < N" "i < n"
  shows "slice (candidatesCoords_of D data N d n st) (i * d) d =
         slice data (candidatesIds_of D N n st ! i * d) d"
proof -
  have "\<forall>cid\<in>set (candidatesIds_of D N n st). length (slice data (cid * d) d) = d"
  proof
    fix cid assume "cid \<in> set (candidatesIds_of D N n st)"
    then have "cid < N"
      unfolding candidatesIds_of_def using find_candidates_bound[OF assms(2,3), of 0] by blast
    then show "length (slice data (cid * d) d) = d"
      using row_bound[of cid N d] assms(1) by (simp add: length_slice)
  qed
  then show ?thesis
    unfolding candidatesCoords_of_def
    using slice_concat_rows[of "candidatesIds_of D N n st" "\<lambda>cid. slice data (cid * d) d" d i] assms(4)
    by (simp add: length_candidatesIds_of)
qed

lemma slice_distsToCandidates_of:
  assumes "length data = N * d" "length (distancesCumsum st) = N" "0 < N" "trial < n"
  shows "slice (distsToCandidates_of D data N d n st) (trial * N) N =
         updated_potential D data N d (distances st) (candidatesIds_of D N n st ! trial)"
proof -
  have "slice (distsToCandidates_of D data N d n st) (trial * N) N =
        map (\<lambda>frame. std_min (computeDistances D (candidatesCoords_of D data N d n st) n data N d
                                ! (trial * N + frame)) (distances st ! frame)) [0..<N]"
    using assms(4) by (simp add: distsToCandidates_of_def Let_def slice_tabulate2)
  also have "\<dots> = updated_potential D data N d (distances st) (candidatesIds_of D N n st ! trial)"
    unfolding updated_potential_def
  proof (rule map_cong[OF refl])
    fix frame assume "frame \<in> set [0..<N]"
    then have fr: "frame < N" by simp
    show "std_min (computeDistances D (candidatesCoords_of D data N d n st) n data N d
                                ! (trial * N + frame)) (distances st ! frame) =
          min (distances st ! frame)
            (compute_squared_d D (slice data (candidatesIds_of D N n st ! trial * d) d)
               (slice data (frame * d) d))"
      using assms(4) fr slice_candidatesCoords_of[OF assms]
      by (simp add: computeDistances_def nth_tabulate2 std_min_eq)
  qed
  finally show ?thesis .
qed

lemma length_distsToCandidates_of: "length (distsToCandidates_of D data N d n st) = n * N"
  by (simp add: distsToCandidates_of_def Let_def length_tabulate2)

lemma team_size_pos: "0 < team_size D P"
proof -
  have "1 \<le> max 1 (nat (omp_num_threads P))" by (rule max.cobounded1)
  then show ?thesis unfolding team_size_def by (cases "USE_OPENMP D") auto
qed

lemma length_candidatesPotentials_of: "length (candidatesPotentials_of D data N d n st) = n"
  by (simp add: candidatesPotentials_of_def)


lemma length_updated_potential: "length (updated_potential D data N d p cid) = N"
  by (simp add: updated_potential_def)

lemma min_element_candidatesPotentials_of:
  "0 < n \<Longrightarrow> min_element (candidatesPotentials_of D data N d n st) < n"
  using min_element_props(1)[of "candidatesPotentials_of D data N d n st"]
    length_candidatesPotentials_of[of D data N d n st] by (cases "candidatesPotentials_of D data N d n st") auto

lemma bestCandidateId_of_bound:
  "length (distancesCumsum st) = N \<Longrightarrow> 0 < N \<Longrightarrow> 0 < n \<Longrightarrow> bestCandidateId_of D data N d n st < N"
  unfolding bestCandidateId_of_def
  by (rule candidatesIds_of_bound) (simp_all add: min_element_candidatesPotentials_of)

lemma seeding_round_simps:
  "generator (seeding_round D data N d n cb c st) =
     snd (generate n (trialGenerator D (currentPotential st)) (generator st))"
  "currentPotential (seeding_round D data N d n cb c st) =
     candidatesPotentials_of D data N d n st ! min_element (candidatesPotentials_of D data N d n st)"
  "distances (seeding_round D data N d n cb c st) =
     copy_into (distances st) 0
       (slice (distsToCandidates_of D data N d n st)
          (min_element (candidatesPotentials_of D data N d n st) * N) N)"
  "distancesCumsum (seeding_round D data N d n cb c st) =
     partial_sum D (distances (seeding_round D data N d n cb c st))"
  "centers (seeding_round D data N d n cb c st) =
     assignCenter (bestCandidateId_of D data N d n st) d data (centers st) (c * d)"
  "proc (seeding_round D data N d n cb c st) = perform_callback cb (proc st)"
  by (simp_all add: seeding_round_def Let_def bestCandidateId_of_def)

lemma distances_seeding_round:
  assumes "length data = N * d" "state_shape D N d k st" "0 < N" "0 < n"
  shows "distances (seeding_round D data N d n cb c st) =
         updated_potential D data N d (distances st) (bestCandidateId_of D data N d n st)"
proof -
  have len: "length (distancesCumsum st) = N" "length (distances st) = N"
    using assms(2) by (simp_all add: state_shape_def length_partial_sum)
  have best: "min_element (candidatesPotentials_of D data N d n st) < n"
    using assms(4) by (rule min_element_candidatesPotentials_of)
  show ?thesis
    using slice_distsToCandidates_of[OF assms(1) len(1) assms(3) best, of D] len(2)
    by (simp add: seeding_round_simps bestCandidateId_of_def copy_into_whole length_updated_potential)
qed


lemma length_assignCenter:
  assumes "length data = N * d" "cid < N" "c < k" "length cs = k * d"
  shows "length (assignCenter cid d data cs (c * d)) = k * d"
proof -
  have "length (slice data (cid * d) d) = d"
    using row_bound[OF assms(2), of d] assms(1) by (simp add: length_slice)
  then show ?thesis
    using row_bound[OF assms(3), of d] assms(4) by (simp add: assignCenter_def length_copy_into)
qed

lemma slice_assignCenter_same:
  assumes "length data = N * d" "cid < N" "c < k" "length cs = k * d"
  shows "slice (assignCenter cid d data cs (c * d)) (c * d) d = slice data (cid * d) d"
proof -
  have len: "length (slice data (cid * d) d) = d"
    using row_bound[OF assms(2), of d] assms(1) by (simp add: length_slice)
  show ?thesis
    using slice_copy_into_same[of "c * d" "slice data (cid * d) d" cs] row_bound[OF assms(3), of d]
      assms(4) len by (simp add: assignCenter_def)
qed

lemma slice_assignCenter_before:
  assumes "length data = N * d" "cid < N" "c < k" "length cs = k * d" "c' < c"
  shows "slice (assignCenter cid d data cs (c * d)) (c' * d) d = slice cs (c' * d) d"
proof -
  have len: "length (slice data (cid * d) d) = d"
    using row_bound[OF assms(2), of d] assms(1) by (simp add: length_slice)
  show ?thesis
    using slice_copy_into_before[of "c * d" "slice data (cid * d) d" cs "c' * d" d]
      row_bound[OF assms(3), of d] row_bound[OF assms(5), of d] assms(4) len
    by (simp add: assignCenter_def)
qed

lemma state_shape_seeding_round:
  assumes "length data = N * d" "state_shape D N d k st" "0 < N" "0 < n" "c < k"
  shows "state_shape D N d k (seeding_round D data N d n cb c st)"
proof -
  have len: "length (distancesCumsum st) = N" "length (centers st) = k * d"
    using assms(2) by (simp_all add: state_shape_def length_partial_sum)
  have "bestCandidateId_of D data N d n st < N"
    using len(1) assms(3,4) by (rule bestCandidateId_of_bound)
  then have "length (centers (seeding_round D data N d n cb c st)) = k * d"
    using length_assignCenter[OF assms(1) _ assms(5) len(2)] by (simp add: seeding_round_simps)
  then show ?thesis
    unfolding state_shape_def
    using distances_seeding_round[OF assms(1-4), of cb c]
    by (simp add: seeding_round_simps(4) length_updated_potential)
qed

lemma seeding_rounds_0: "seeding_rounds D data N d n cb 0 st = st"
  by (simp add: seeding_rounds_def)

lemma seeding_rounds_Suc:
  "seeding_rounds D data N d n cb (Suc m) st =
   seeding_round D data N d n cb (Suc m) (seeding_rounds D data N d n cb m st)"
  by (simp add: seeding_rounds_def)

lemma seeding_state_after_Suc:
  "seeding_state_after D data k seed cb P (Suc m) =
   seeding_round D (buf data) (shape data ! 0) (shape data ! 1) (nTrials_of k) cb (Suc m)
     (seeding_state_after D data k seed cb P m)"
  by (simp add: seeding_state_after_def Let_def seeding_rounds_Suc)

lemma seeding_state_after_0:
  "seeding_state_after D data k seed cb P 0 =
   seeding_init D (buf data) k (shape data ! 0) (shape data ! 1) cb (initial_generator D seed P) P"
  by (simp add: seeding_state_after_def Let_def seeding_rounds_0)

lemma seeding_init_simps:
  "generator (seeding_init D data k N d cb g P) = snd (uniform D (N - 1) g)"
  "centers (seeding_init D data k N d cb g P) =
     assignCenter (fst (uniform D (N - 1) g)) d data (replicate (k * d) 0) 0"
  "distances (seeding_init D data k N d cb g P) =
     computeDistances D (centers (seeding_init D data k N d cb g P)) 1 data N d"
  "distancesCumsum (seeding_init D data k N d cb g P) =
     partial_sum D (distances (seeding_init D data k N d cb g P))"
  "currentPotential (seeding_init D data k N d cb g P) =
     last (distancesCumsum (seeding_init D data k N d cb g P))"
  "proc (seeding_init D data k N d cb g P) = perform_callback cb P"
  by (simp_all add: seeding_init_def Let_def split: prod.splits)

lemma state_shape_seeding_init:
  assumes "length data = N * d" "0 < N" "0 < k" "fst (uniform D (N - 1) g) \<le> N - 1"
  shows "state_shape D N d k (seeding_init D data k N d cb g P)"
proof -
  have first: "fst (uniform D (N - 1) g) < N" using assms(2,4) by simp
  have "length (centers (seeding_init D data k N d cb g P)) = k * d"
    using length_assignCenter[OF assms(1) first assms(3), of "replicate (k * d) 0"]
    by (simp add: seeding_init_simps)
  moreover have len: "length (distances (seeding_init D data k N d cb g P)) = N"
    by (simp add: seeding_init_simps(3) computeDistances_def length_tabulate2)
  ultimately show ?thesis
    unfolding state_shape_def by (simp add: seeding_init_simps(4))
qed


section \<open>The states the seeder runs through\<close>

lemma state_shape_after:
  assumes "two_dimensional data" "0 < k" "k \<le> shape data ! 0" "distributions_in_range D" "m < k"
  shows "state_shape D (shape data ! 0) (shape data ! 1) k (seeding_state_after D data k seed cb P m)"
  using assms(5)
proof (induction m)
  case 0
  show ?case
    unfolding seeding_state_after_0
    by (rule state_shape_seeding_init) (use assms in \<open>auto simp: two_dimensional_def distributions_in_range_def\<close>)
next
  case (Suc m)
  then have ih: "state_shape D (shape data ! 0) (shape data ! 1) k (seeding_state_after D data k seed cb P m)"
    by simp
  show ?case
    unfolding seeding_state_after_Suc
    by (rule state_shape_seeding_round[OF _ ih])
      (use assms Suc.prems nTrials_of_ge_2[of k] in \<open>auto simp: two_dimensional_def\<close>)
qed

lemma centers_after_are_rows:
  assumes "two_dimensional data" "0 < k" "k \<le> shape data ! 0" "distributions_in_range D" "m < k" "c \<le> m"
  shows "\<exists>i<shape data ! 0.
           slice (centers (seeding_state_after D data k seed cb P m)) (c * (shape data ! 1)) (shape data ! 1) =
           slice (buf data) (i * (shape data ! 1)) (shape data ! 1)"
  using assms(5,6)
proof (induction m)
  case 0
  have len: "length (buf data) = shape data ! 0 * shape data ! 1"
    using assms(1) by (simp add: two_dimensional_def)
  have first: "fst (uniform D (shape data ! 0 - 1) (initial_generator D seed P)) < shape data ! 0"
    using assms(2,3,4) by (auto simp: distributions_in_range_def intro: le_less_trans[where y = "shape data ! 0 - 1"])
  have "slice (centers (seeding_state_after D data k seed cb P 0)) (0 * (shape data ! 1)) (shape data ! 1) =
        slice (buf data) (fst (uniform D (shape data ! 0 - 1) (initial_generator D seed P)) * (shape data ! 1)) (shape data ! 1)"
    unfolding seeding_state_after_0 seeding_init_simps
    using slice_assignCenter_same[OF len first assms(2), of "replicate (k * (shape data ! 1)) 0"]
    by simp
  with first 0 show ?case by auto
next
  case (Suc m)
  have len: "length (buf data) = shape data ! 0 * shape data ! 1"
    using assms(1) by (simp add: two_dimensional_def)
  have mk: "m < k" using Suc.prems by simp
  have sh: "state_shape D (shape data ! 0) (shape data ! 1) k (seeding_state_after D data k seed cb P m)"
    using state_shape_after[OF assms(1-4) mk] .
  then have lens: "length (distancesCumsum (seeding_state_after D data k seed cb P m)) = shape data ! 0"
    "length (centers (seeding_state_after D data k seed cb P m)) = k * (shape data ! 1)"
    by (simp_all add: state_shape_def length_partial_sum)
  have N: "0 < shape data ! 0" using assms(2,3) by simp
  have n: "0 < nTrials_of k" using nTrials_of_ge_2[of k] assms(2) by simp
  have best: "bestCandidateId_of D (buf data) (shape data ! 0) (shape data ! 1) (nTrials_of k)
                (seeding_state_after D data k seed cb P m) < shape data ! 0"
    using lens(1) N n by (rule bestCandidateId_of_bound)
  show ?case
  proof (cases "c = Suc m")
    case True
    show ?thesis
      unfolding seeding_state_after_Suc seeding_round_simps True
      using slice_assignCenter_same[OF len best Suc.prems(1) lens(2)] best by auto
  next
    case False
    then have c: "c \<le> m" "c < Suc m" using Suc.prems by simp_all
    show ?thesis
      unfolding seeding_state_after_Suc seeding_round_simps
      using slice_assignCenter_before[OF len best Suc.prems(1) lens(2) c(2)] Suc.IH[OF mk c(1)]
      by simp
  qed
qed

lemma initKmeansPlusPlus_valid:
  assumes "two_dimensional data" "0 < k" "k \<le> shape data ! 0"
  shows "initKmeansPlusPlus D data k seed n_threads cb P =
         (Inr \<lparr>shape = [k, shape data ! 1],
               buf = centers (seeding_state_after D data k seed cb (set_num_threads D n_threads P) (k - 1))\<rparr>,
          proc (seeding_state_after D data k seed cb (set_num_threads D n_threads P) (k - 1)))"
  using assms by (simp add: initKmeansPlusPlus_def shape_at_def two_dimensional_def Let_def)

text \<open>
  C1. For a two-dimensional data set of \<open>N\<close> points in \<open>D\<close> dimensions, every \<open>k\<close>
  with \<open>N \<ge> k \<ge> 1\<close> and any seed, the seeder returns an array of shape \<open>(k, D)\<close>
  with a full buffer, and each of its rows is equal to a row of the data.
\<close>

theorem seed_returns_k_rows_of_the_data:
  assumes "two_dimensional data" "1 \<le> k" "k \<le> shape data ! 0" "distributions_in_range D"
  shows "\<exists>cs P'. initKmeansPlusPlus D data k seed n_threads callback P = (Inr cs, P') \<and>
           shape cs = [k, shape data ! 1] \<and> two_dimensional cs \<and>
           (\<forall>c<k. \<exists>i<shape data ! 0. row cs c = row data i)"
proof -
  define st where "st = seeding_state_after D data k seed callback (set_num_threads D n_threads P) (k - 1)"
  define cs where "cs = \<lparr>shape = [k, shape data ! 1], buf = centers st\<rparr>"
  have k: "0 < k" "k - 1 < k" using assms(2) by simp_all
  have run: "initKmeansPlusPlus D data k seed n_threads callback P = (Inr cs, proc st)"
    unfolding cs_def st_def using assms(1) k(1) assms(3) by (rule initKmeansPlusPlus_valid)
  have "state_shape D (shape data ! 0) (shape data ! 1) k st"
    unfolding st_def using assms(1) k(1) assms(3,4) k(2) by (rule state_shape_after)
  then have two: "two_dimensional cs"
    by (simp add: two_dimensional_def cs_def ndim_def state_shape_def)
  have "\<exists>i<shape data ! 0. row cs c = row data i" if "c < k" for c
  proof -
    have "c \<le> k - 1" using that by simp
    from centers_after_are_rows[OF assms(1) k(1) assms(3,4) k(2) this, of seed callback "set_num_threads D n_threads P"]
    show ?thesis by (simp add: row_def cs_def st_def)
  qed
  with run two show ?thesis by (auto simp: cs_def)
qed

lemma counter_deps_simps:
  "USE_OPENMP (counter_deps openmp draws) = openmp"
  "seededGenerator (counter_deps openmp draws) = nat"
  "randomlySeededGenerator (counter_deps openmp draws) = (\<lambda>w. 0)"
  "uniform (counter_deps openmp draws) = (\<lambda>b g. (g mod (b + 1), g + 1))"
  "uniformReal (counter_deps openmp draws) = (\<lambda>g. (draws g, g + 1))"
  "compute_squared_d (counter_deps openmp draws) = euclidean_metric float64"
  "dtype (counter_deps openmp draws) = float64"
  "assign_chunk_to_centers (counter_deps openmp draws) = nearest_center_assignments"
  "costFunction_assigned (counter_deps openmp draws) = assigned_cost"
  by (simp_all add: counter_deps_def)

lemma counter_deps_in_range:
  assumes "\<And>g. 0 \<le> draws g \<and> draws g < 1"
  shows "distributions_in_range (counter_deps openmp draws)"
proof -
  have "g mod (b + 1) \<le> b" for g b :: nat
    using mod_less_divisor[of "b + 1" g] by simp
  then show ?thesis using assms by (simp add: distributions_in_range_def counter_deps_simps)
qed

lemma quarter_draws_in_range: "0 \<le> quarter_draws g \<and> quarter_draws g < 1"
proof -
  have "g mod 4 < 4" by simp
  then have "real (g mod 4) < 4" by (metis of_nat_less_iff of_nat_numeral)
  then show ?thesis by (simp add: quarter_draws_def)
qed

lemma zero_draws_in_range: "0 \<le> zero_draws g \<and> zero_draws g < 1"
  by (simp add: zero_draws_def)

lemma two_points_two_dimensional: "two_dimensional \<lparr>shape = [2, 1], buf = [a, b]\<rparr>"
  by (simp add: two_dimensional_def ndim_def)

theorem seed_returns_k_rows_of_the_data_witness:
  "two_dimensional \<lparr>shape = [2, 1], buf = [0, 3]\<rparr> \<and> (1::nat) \<le> 2 \<and>
   2 \<le> shape \<lparr>shape = [2, 1], buf = [0, 3]\<rparr> ! 0 \<and>
   distributions_in_range (counter_deps True quarter_draws :: (nat, unit) deps) \<and>
   (\<exists>cs P'. initKmeansPlusPlus (counter_deps True quarter_draws) \<lparr>shape = [2, 1], buf = [0, 3]\<rparr> 2 0 4
               None \<lparr>omp_num_threads = 1, external = ()\<rparr> = (Inr cs, P') \<and>
            shape cs = [2, shape \<lparr>shape = [2, 1], buf = [0, 3]\<rparr> ! 1] \<and> two_dimensional cs \<and>
            (\<forall>c<2. \<exists>i<shape \<lparr>shape = [2, 1], buf = [0, 3]\<rparr> ! 0.
                row cs c = row \<lparr>shape = [2, 1], buf = [0, 3]\<rparr> i))"
proof -
  have a: "two_dimensional \<lparr>shape = [2, 1], buf = [0, 3]\<rparr>" by (rule two_points_two_dimensional)
  have b: "(1::nat) \<le> 2" by simp
  have c: "2 \<le> shape \<lparr>shape = [2, 1], buf = [0, 3]\<rparr> ! 0" by simp
  have d: "distributions_in_range (counter_deps True quarter_draws :: (nat, unit) deps)"
    by (rule counter_deps_in_range) (rule quarter_draws_in_range)
  show ?thesis
    using seed_returns_k_rows_of_the_data [OF a b c d, of 0 4 None "\<lparr>omp_num_threads = 1, external = ()\<rparr>"] a b c d
    by blast
qed


lemma nth_updated_potential:
  "f < N \<Longrightarrow> updated_potential D data N d p cid ! f =
     min (p ! f) (compute_squared_d D (slice data (cid * d) d) (slice data (f * d) d))"
  by (simp add: updated_potential_def)

section \<open>The values the seeder runs through\<close>











section \<open>The rounds of the seeder\<close>



lemma team_size_perform_callback: "team_size D (perform_callback cb P) = team_size D P"
  by (simp add: team_size_def perform_callback_def split: option.splits)

lemma loop_variables_seeding_round:
  assumes "loop_variables st1 = loop_variables st2" "team_size D (proc st1) = team_size D (proc st2)"
  shows "loop_variables (seeding_round D data N d n cb1 c st1) =
         loop_variables (seeding_round D data N d n cb2 c st2)"
proof -
  have eq: "generator st1 = generator st2" "currentPotential st1 = currentPotential st2"
    "distances st1 = distances st2" "distancesCumsum st1 = distancesCumsum st2"
    "centers st1 = centers st2"
    using assms(1) by (simp_all add: loop_variables_def)
  have ids: "candidatesIds_of D N n st1 = candidatesIds_of D N n st2"
    by (simp add: candidatesIds_of_def trialValues_of_def eq)
  have dtc: "distsToCandidates_of D data N d n st1 = distsToCandidates_of D data N d n st2"
    by (simp add: distsToCandidates_of_def candidatesCoords_of_def ids eq)
  have red: "reduction_sum D (proc st1) xs = reduction_sum D (proc st2) xs" for xs
    using assms(2) by (simp add: reduction_sum_def)
  have pots: "candidatesPotentials_of D data N d n st1 = candidatesPotentials_of D data N d n st2"
    by (simp add: candidatesPotentials_of_def dtc red)
  have best: "bestCandidateId_of D data N d n st1 = bestCandidateId_of D data N d n st2"
    by (simp add: bestCandidateId_of_def ids pots)
  show ?thesis
    unfolding loop_variables_def seeding_round_simps using eq dtc pots best by simp
qed

lemma loop_variables_seeding_init:
  "loop_variables (seeding_init D data k N d cb1 g P1) = loop_variables (seeding_init D data k N d cb2 g P2)"
  by (simp add: loop_variables_def seeding_init_def Let_def split: prod.splits)

lemma proc_after:
  "proc (seeding_state_after D data k seed cb P m) = (perform_callback cb ^^ Suc m) P"
proof (induction m)
  case 0 show ?case by (simp add: seeding_state_after_0 seeding_init_simps)
next
  case (Suc m)
  then show ?case by (simp add: seeding_state_after_Suc seeding_round_simps)
qed

lemma team_size_funpow: "team_size D ((perform_callback cb ^^ m) P) = team_size D P"
  by (induction m) (simp_all add: team_size_perform_callback)

lemma team_size_after: "team_size D (proc (seeding_state_after D data k seed cb P m)) = team_size D P"
  unfolding proc_after by (rule team_size_funpow)

lemma loop_variables_after:
  assumes "initial_generator D seed P1 = initial_generator D seed P2" "team_size D P1 = team_size D P2"
  shows "loop_variables (seeding_state_after D data k seed cb1 P1 m) =
         loop_variables (seeding_state_after D data k seed cb2 P2 m)"
proof (induction m)
  case 0
  from assms(1) show ?case
    unfolding seeding_state_after_0 using loop_variables_seeding_init by metis
next
  case (Suc m)
  show ?case
    unfolding seeding_state_after_Suc
    by (rule loop_variables_seeding_round[OF Suc]) (simp add: team_size_after assms(2))
qed

lemma snd_trialGenerator: "snd (trialGenerator D p g) = snd (uniformReal D g)"
  by (simp add: trialGenerator_def split: prod.splits)


lemma generator_after:
  "generator (seeding_state_after D data k seed cb P m) =
   ((\<lambda>g. snd (uniformReal D g)) ^^ (m * nTrials_of k))
     (snd (uniform D (shape data ! 0 - 1) (initial_generator D seed P)))"
proof (induction m)
  case 0
  show ?case by (simp add: seeding_state_after_0 seeding_init_simps)
next
  case (Suc m)
  have "generator (seeding_state_after D data k seed cb P (Suc m)) =
        ((\<lambda>g. snd (uniformReal D g)) ^^ nTrials_of k) (generator (seeding_state_after D data k seed cb P m))"
    by (simp add: seeding_state_after_Suc seeding_round_simps snd_generate snd_trialGenerator)
  then show ?case using Suc by (simp add: funpow_add)
qed

lemma team_size_set_num_threads:
  "team_size D (set_num_threads D n P) = (if USE_OPENMP D then max 1 (nat n) else 1)"
  by (simp add: team_size_def set_num_threads_def)

lemma perform_callback_Some_funpow:
  "(perform_callback (Some f) ^^ m) P = P\<lparr>external := ((\<lambda>w. snd (f w)) ^^ m) (external P)\<rparr>"
  by (induction m) (simp_all add: perform_callback_def)

lemma perform_callback_None_funpow: "(perform_callback None ^^ m) P = P"
  by (induction m) (simp_all add: perform_callback_def)

lemma external_set_num_threads: "external (set_num_threads D n P) = external P"
  by (simp add: set_num_threads_def)


section \<open>Validation and callbacks\<close>

text \<open>
  C6, as the code has it. For an array with at least one axis, too few frames
  (\<open>N < k\<close>) raise \<open>std::invalid_argument\<close> before anything else happens, and the
  process state is untouched; with enough frames, an array that is not two-dimensional
  raises \<open>std::invalid_argument\<close> after the OpenMP thread count has been set, and
  nothing else has happened: no draw, no callback.
\<close>

theorem seed_checks_frames_then_dimensions:
  assumes "1 \<le> ndim data" "shape data ! 0 < k \<or> ndim data \<noteq> 2"
  shows "initKmeansPlusPlus D data k seed n_threads callback P =
           (if shape data ! 0 < k
            then (Inl (invalid_argument (not_enough_data (shape data ! 0) k)), P)
            else (Inl (invalid_argument not_two_dimensions), set_num_threads D n_threads P)) \<and>
         external (snd (initKmeansPlusPlus D data k seed n_threads callback P)) = external P"
  using assms by (auto simp: initKmeansPlusPlus_def shape_at_def Let_def external_set_num_threads)

theorem seed_checks_frames_then_dimensions_witness:
  "1 \<le> ndim \<lparr>shape = [3], buf = [0, 0, 0]\<rparr> \<and>
   (shape \<lparr>shape = [3], buf = [0, 0, 0]\<rparr> ! 0 < 1 \<or> ndim \<lparr>shape = [3], buf = [0, 0, 0]\<rparr> \<noteq> 2) \<and>
   initKmeansPlusPlus (counter_deps True quarter_draws) \<lparr>shape = [3], buf = [0, 0, 0]\<rparr> 1 0 1
     (None :: (unit \<Rightarrow> unit \<times> unit) option) \<lparr>omp_num_threads = 4, external = ()\<rparr> =
   (Inl (invalid_argument not_two_dimensions), \<lparr>omp_num_threads = 1, external = ()\<rparr>)"
proof -
  have a: "1 \<le> ndim \<lparr>shape = [3], buf = [0, 0, 0]\<rparr>" by (simp add: ndim_def)
  have b: "shape \<lparr>shape = [3], buf = [0, 0, 0]\<rparr> ! 0 < 1 \<or> ndim \<lparr>shape = [3], buf = [0, 0, 0]\<rparr> \<noteq> 2"
    by (simp add: ndim_def)
  show ?thesis
    using seed_checks_frames_then_dimensions [OF a b, of "counter_deps True quarter_draws" 0 1
        "None :: (unit \<Rightarrow> unit \<times> unit) option" "\<lparr>omp_num_threads = 4, external = ()\<rparr>"] a b
    by (simp add: set_num_threads_def counter_deps_simps)
qed

theorem seed_validation_counterexample:
  "initKmeansPlusPlus (counter_deps True quarter_draws) \<lparr>shape = [1, 1], buf = [0]\<rparr> 0 0 1
     (None :: (unit \<Rightarrow> unit \<times> unit) option) \<lparr>omp_num_threads = 4, external = ()\<rparr> =
   (Inl undefined_behaviour, \<lparr>omp_num_threads = 1, external = ()\<rparr>) \<and>
   initKmeansPlusPlus (counter_deps True quarter_draws) \<lparr>shape = [3], buf = [0, 0, 0]\<rparr> 1 0 1
     (None :: (unit \<Rightarrow> unit \<times> unit) option) \<lparr>omp_num_threads = 4, external = ()\<rparr> =
   (Inl (invalid_argument not_two_dimensions), \<lparr>omp_num_threads = 1, external = ()\<rparr>)"
  by (simp add: initKmeansPlusPlus_def shape_at_def ndim_def set_num_threads_def counter_deps_simps)

text \<open>
  C7, as the code has it. On a valid call with a callback, the callback has run once
  after each chosen center: after \<open>m + 1\<close> centers the external state is the
  \<open>(m + 1)\<close>-fold effect of the callback, and after the call the \<open>k\<close>-fold one. What
  the callback returns is dropped: the call returns all \<open>k\<close> centers, the same as
  with any other callback or none.
\<close>

theorem callback_runs_once_per_center:
  assumes "two_dimensional data" "1 \<le> k" "k \<le> shape data ! 0"
  shows "(\<forall>m<k. external (proc (seeding_state_after D data k seed (Some f)
                                 (set_num_threads D n_threads P) m)) =
                 ((\<lambda>w. snd (f w)) ^^ Suc m) (external P)) \<and>
         snd (initKmeansPlusPlus D data k seed n_threads (Some f) P) =
           (set_num_threads D n_threads P)\<lparr>external := ((\<lambda>w. snd (f w)) ^^ k) (external P)\<rparr> \<and>
         (\<exists>cs. fst (initKmeansPlusPlus D data k seed n_threads (Some f) P) = Inr cs \<and>
               shape cs = [k, shape data ! 1] \<and>
               fst (initKmeansPlusPlus D data k seed n_threads callback' P) = Inr cs)"
proof -
  have k: "0 < k" using assms(2) by simp
  have 1: "\<forall>m<k. external (proc (seeding_state_after D data k seed (Some f)
                                 (set_num_threads D n_threads P) m)) =
                 ((\<lambda>w. snd (f w)) ^^ Suc m) (external P)"
    by (simp add: proc_after perform_callback_Some_funpow external_set_num_threads del: funpow.simps)
  have "proc (seeding_state_after D data k seed (Some f) (set_num_threads D n_threads P) (k - 1)) =
        (set_num_threads D n_threads P)\<lparr>external := ((\<lambda>w. snd (f w)) ^^ k) (external P)\<rparr>"
    using k by (simp add: proc_after perform_callback_Some_funpow external_set_num_threads del: funpow.simps)
  then have 2: "snd (initKmeansPlusPlus D data k seed n_threads (Some f) P) =
           (set_num_threads D n_threads P)\<lparr>external := ((\<lambda>w. snd (f w)) ^^ k) (external P)\<rparr>"
    by (simp add: initKmeansPlusPlus_valid[OF assms(1) k assms(3)])
  have "loop_variables (seeding_state_after D data k seed (Some f) (set_num_threads D n_threads P) (k - 1)) =
        loop_variables (seeding_state_after D data k seed callback' (set_num_threads D n_threads P) (k - 1))"
    by (rule loop_variables_after) (rule refl)+
  then have "centers (seeding_state_after D data k seed (Some f) (set_num_threads D n_threads P) (k - 1)) =
        centers (seeding_state_after D data k seed callback' (set_num_threads D n_threads P) (k - 1))"
    by (simp add: loop_variables_def)
  then have 3: "\<exists>cs. fst (initKmeansPlusPlus D data k seed n_threads (Some f) P) = Inr cs \<and>
               shape cs = [k, shape data ! 1] \<and>
               fst (initKmeansPlusPlus D data k seed n_threads callback' P) = Inr cs"
    by (simp add: initKmeansPlusPlus_valid[OF assms(1) k assms(3)])
  from 1 2 3 show ?thesis by blast
qed

theorem callback_runs_once_per_center_witness:
  "two_dimensional \<lparr>shape = [2, 1], buf = [0, 3]\<rparr> \<and> (1::nat) \<le> 2 \<and>
   2 \<le> shape \<lparr>shape = [2, 1], buf = [0, 3]\<rparr> ! 0 \<and>
   snd (initKmeansPlusPlus (counter_deps True quarter_draws) \<lparr>shape = [2, 1], buf = [0, 3]\<rparr> 2 0 1
          (Some always_cancel) \<lparr>omp_num_threads = 1, external = 0\<rparr>) =
   \<lparr>omp_num_threads = 1, external = 2\<rparr>"
proof -
  have a: "two_dimensional \<lparr>shape = [2, 1], buf = [0, 3]\<rparr>" by (rule two_points_two_dimensional)
  have b: "(1::nat) \<le> 2" by simp
  have c: "2 \<le> shape \<lparr>shape = [2, 1], buf = [0, 3]\<rparr> ! 0" by simp
  have d: "((\<lambda>w. snd (always_cancel w)) ^^ 2) 0 = 2"
    by (simp add: always_cancel_def numeral_2_eq_2)
  have "snd (initKmeansPlusPlus (counter_deps True quarter_draws) \<lparr>shape = [2, 1], buf = [0, 3]\<rparr> 2 0 1
          (Some always_cancel) \<lparr>omp_num_threads = 1, external = 0\<rparr>) =
        (set_num_threads (counter_deps True quarter_draws) 1 \<lparr>omp_num_threads = 1, external = 0\<rparr>)
          \<lparr>external := ((\<lambda>w. snd (always_cancel w)) ^^ 2) (external \<lparr>omp_num_threads = 1, external = 0\<rparr>)\<rparr>"
    using callback_runs_once_per_center [OF a b c, of "counter_deps True quarter_draws" 0 always_cancel 1
        "\<lparr>omp_num_threads = 1, external = 0\<rparr>" None]
    by (rule conjunct1[OF conjunct2])
  then show ?thesis
    using a b c d by (simp add: set_num_threads_def counter_deps_simps)
qed

section \<open>Thread counts\<close>

text \<open>
  C5, as the code has it. For a non-negative seed, two calls on the same data with the
  same \<open>k\<close> that run their reductions with the same number of threads (the same
  thread count, or a build without OpenMP) return the same centers, whatever their
  callbacks and the process states they start in; and the generator makes one integer
  draw on \<open>[0, N - 1]\<close> followed by \<open>(k - 1) \<cdot> nTrials\<close> real draws, whatever the
  thread count.
\<close>

theorem seed_depends_on_team_size_only:
  assumes "0 \<le> seed" "USE_OPENMP D \<Longrightarrow> max 1 (nat n_threads) = max 1 (nat n_threads')"
  shows "fst (initKmeansPlusPlus D data k seed n_threads callback P) =
         fst (initKmeansPlusPlus D data k seed n_threads' callback' P') \<and>
         generator (seeding_state_after D data k seed callback (set_num_threads D n_threads P) (k - 1)) =
           ((\<lambda>g. snd (uniformReal D g)) ^^ ((k - 1) * nTrials_of k))
             (snd (uniform D (shape data ! 0 - 1) (seededGenerator D seed)))"
proof -
  have g: "initial_generator D seed (set_num_threads D n_threads P) =
           initial_generator D seed (set_num_threads D n_threads' P')"
    using assms(1) by (simp add: initial_generator_def)
  have t: "team_size D (set_num_threads D n_threads P) = team_size D (set_num_threads D n_threads' P')"
    using assms(2) by (simp add: team_size_set_num_threads)
  have "loop_variables (seeding_state_after D data k seed callback (set_num_threads D n_threads P) (k - 1)) =
        loop_variables (seeding_state_after D data k seed callback' (set_num_threads D n_threads' P') (k - 1))"
    using g t by (rule loop_variables_after)
  then have "centers (seeding_state_after D data k seed callback (set_num_threads D n_threads P) (k - 1)) =
        centers (seeding_state_after D data k seed callback' (set_num_threads D n_threads' P') (k - 1))"
    by (simp add: loop_variables_def)
  then have "fst (initKmeansPlusPlus D data k seed n_threads callback P) =
         fst (initKmeansPlusPlus D data k seed n_threads' callback' P')"
    by (simp add: initKmeansPlusPlus_def Let_def split: sum.splits)
  moreover have "initial_generator D seed (set_num_threads D n_threads P) = seededGenerator D seed"
    using assms(1) by (simp add: initial_generator_def)
  ultimately show ?thesis by (simp add: generator_after)
qed

theorem seed_depends_on_team_size_only_witness:
  "(0::int) \<le> 0 \<and>
   (USE_OPENMP (counter_deps True quarter_draws :: (nat, nat) deps) \<longrightarrow> max 1 (nat 0) = max 1 (nat 1)) \<and>
   fst (initKmeansPlusPlus (counter_deps True quarter_draws) \<lparr>shape = [2, 1], buf = [0, 3]\<rparr> 2 0 0
          (None :: (nat \<Rightarrow> progress \<times> nat) option) \<lparr>omp_num_threads = 1, external = 0\<rparr>) =
   fst (initKmeansPlusPlus (counter_deps True quarter_draws) \<lparr>shape = [2, 1], buf = [0, 3]\<rparr> 2 0 1
          (Some always_cancel) \<lparr>omp_num_threads = 8, external = 5\<rparr>)"
proof -
  have a: "(0::int) \<le> 0" by simp
  have b: "max 1 (nat 0) = max 1 (nat 1)" by simp
  show ?thesis
    using seed_depends_on_team_size_only [OF a b, of "counter_deps True quarter_draws"
        "\<lparr>shape = [2, 1], buf = [0, 3]\<rparr>" 2 "None :: (nat \<Rightarrow> progress \<times> nat) option"
        "\<lparr>omp_num_threads = 1, external = 0\<rparr>" "Some always_cancel"
        "\<lparr>omp_num_threads = 8, external = 5\<rparr>"]
    by simp
qed


section \<open>The lookup of the trial values\<close>
















section \<open>Two runs on two points\<close>

lemma nTrials_of_3: "nTrials_of 3 = 3"
proof -
  have "exp (1::real) \<le> 3" by (rule exp_le)
  then have "exp (1::real) \<le> exp (ln 3)" by simp
  then have lo: "1 \<le> ln (3::real)" by (simp only: exp_le_cancel_iff)
  have "(1::real) + 1 \<le> exp 1" using exp_ge_add_one_self[of "1::real"] by simp
  then have "(2::real) * 2 \<le> exp 1 * exp 1" by (intro mult_mono) simp_all
  then have "(3::real) < exp 2" using exp_add[of "1::real" 1] by simp
  then have "exp (ln 3) < exp (2::real)" by simp
  then have hi: "ln (3::real) < 2" by (simp only: exp_less_cancel_iff)
  from lo hi have "\<lfloor>2 + ln (3::real)\<rfloor> = 3" by linarith
  then show ?thesis by (simp add: nTrials_of_def)
qed

lemmas round_eval =
  round_double_0 round_double_1 round_double_numeral round_double_numeral_half
  round_double_numeral_quarter round_double_half

lemmas init_eval =
  seeding_state_after_0 seeding_init_def initial_generator_def counter_deps_simps assignCenter_def
  copy_into_def slice_def computeDistances_def tabulate2_def upt_rec partial_sum_def
  perform_callback_def euclidean_metric_def squared_euclidean_def dtype_plus_def Let_def round_eval

lemmas round_step_eval =
  computeDistances_def tabulate2_def upt_rec slice_def std_min_def euclidean_metric_def
  squared_euclidean_def counter_deps_simps Let_def round_eval

lemmas sum_eval =
  candidatesPotentials_of_def reduction_sum_def omp_reduction_sum_def team_size_def dtype_plus_def
  counter_deps_simps slice_def upt_rec Let_def round_eval

lemma two_points_after_0:
  "loop_variables (seeding_state_after (counter_deps openmp draws) \<lparr>shape = [2, 1], buf = [0, 3]\<rparr> 2 0 cb P 0) =
   (1, 9, [0, 9], [0, 9], [0, 0])"
  by (simp add: loop_variables_def init_eval)

lemma two_points_quarter_round:
  assumes "loop_variables st = (1, 9, [0, 9], [0, 9], [0, 0])" "omp_num_threads (proc st) = 1"
  shows "loop_variables (seeding_round (counter_deps openmp quarter_draws) [0, 3] 2 1 2 cb 1 st) =
         (3, 0, [0, 0], [0, 0], [0, 3])"
proof -
  have f: "generator st = 1" "currentPotential st = 9" "distances st = [0, 9]"
    "distancesCumsum st = [0, 9]" "centers st = [0, 0]"
    using assms by (simp_all add: loop_variables_def)
  have gen: "generate 2 (trialGenerator (counter_deps openmp quarter_draws) 9) (Suc 0) = ([9 / 4, 9 / 2], 3)"
    by (simp add: trialGenerator_def counter_deps_simps quarter_draws_def numeral_2_eq_2 round_eval)
  have ids: "candidatesIds_of (counter_deps openmp quarter_draws) 2 2 st = [1, 1]"
    by (simp add: candidatesIds_of_def trialValues_of_def f gen lower_bound_def lower_bound_loop.simps)
  have coords: "candidatesCoords_of (counter_deps openmp quarter_draws) [0, 3] 2 (Suc 0) 2 st = [3, 3]"
    by (simp add: candidatesCoords_of_def ids slice_def)
  have dtc: "distsToCandidates_of (counter_deps openmp quarter_draws) [0, 3] 2 (Suc 0) 2 st = [0, 0, 0, 0]"
    by (simp add: distsToCandidates_of_def coords f round_step_eval)
  have pots: "candidatesPotentials_of (counter_deps openmp quarter_draws) [0, 3] 2 (Suc 0) 2 st = [0, 0]"
    by (simp add: dtc assms(2) sum_eval)
  have best: "min_element [0, 0] = 0"
    by (simp add: min_element_def min_element_loop.simps)
  show ?thesis
    by (simp add: loop_variables_def seeding_round_simps bestCandidateId_of_def ids dtc pots best f gen
        copy_into_def slice_def partial_sum_def assignCenter_def dtype_plus_def counter_deps_simps round_eval)
qed

lemma two_points_zero_round:
  assumes "loop_variables st = (1, 9, [0, 9], [0, 9], [0, 0])" "omp_num_threads (proc st) = 1"
  shows "loop_variables (seeding_round (counter_deps openmp zero_draws) [0, 3] 2 1 2 cb 1 st) =
         (3, 9, [0, 9], [0, 9], [0, 0])"
proof -
  have f: "generator st = 1" "currentPotential st = 9" "distances st = [0, 9]"
    "distancesCumsum st = [0, 9]" "centers st = [0, 0]"
    using assms by (simp_all add: loop_variables_def)
  have gen: "generate 2 (trialGenerator (counter_deps openmp zero_draws) 9) (Suc 0) = ([0, 0], 3)"
    by (simp add: trialGenerator_def counter_deps_simps zero_draws_def numeral_2_eq_2 round_eval)
  have ids: "candidatesIds_of (counter_deps openmp zero_draws) 2 2 st = [0, 0]"
    by (simp add: candidatesIds_of_def trialValues_of_def f gen lower_bound_def lower_bound_loop.simps)
  have coords: "candidatesCoords_of (counter_deps openmp zero_draws) [0, 3] 2 (Suc 0) 2 st = [0, 0]"
    by (simp add: candidatesCoords_of_def ids slice_def)
  have dtc: "distsToCandidates_of (counter_deps openmp zero_draws) [0, 3] 2 (Suc 0) 2 st = [0, 9, 0, 9]"
    by (simp add: distsToCandidates_of_def coords f round_step_eval)
  have pots: "candidatesPotentials_of (counter_deps openmp zero_draws) [0, 3] 2 (Suc 0) 2 st = [9, 9]"
    by (simp add: dtc assms(2) sum_eval)
  have best: "min_element [9, 9] = 0"
    by (simp add: min_element_def min_element_loop.simps)
  show ?thesis
    by (simp add: loop_variables_def seeding_round_simps bestCandidateId_of_def ids dtc pots best f gen
        copy_into_def slice_def partial_sum_def assignCenter_def dtype_plus_def counter_deps_simps round_eval)
qed

lemma omp_num_threads_perform_callback:
  "omp_num_threads (perform_callback cb P) = omp_num_threads P"
  by (simp add: perform_callback_def split: option.splits)

lemma omp_num_threads_after:
  "omp_num_threads (proc (seeding_state_after D data k seed cb P m)) = omp_num_threads P"
  unfolding proc_after by (induction m) (simp_all add: omp_num_threads_perform_callback)

lemma two_points_quarter_after_1:
  assumes "omp_num_threads P = 1"
  shows "loop_variables (seeding_state_after (counter_deps openmp quarter_draws) \<lparr>shape = [2, 1], buf = [0, 3]\<rparr> 2 0 cb P 1) =
   (3, 0, [0, 0], [0, 0], [0, 3])"
proof -
  have "loop_variables (seeding_round (counter_deps openmp quarter_draws) [0, 3] 2 1 2 cb 1
          (seeding_state_after (counter_deps openmp quarter_draws) \<lparr>shape = [2, 1], buf = [0, 3]\<rparr> 2 0 cb P 0)) =
        (3, 0, [0, 0], [0, 0], [0, 3])"
    by (rule two_points_quarter_round[OF two_points_after_0]) (simp add: omp_num_threads_after assms)
  then show ?thesis
    using seeding_state_after_Suc[of "counter_deps openmp quarter_draws" "\<lparr>shape = [2, 1], buf = [0, 3]\<rparr>" 2 0 cb P 0]
    by (simp add: nTrials_of_2)
qed

lemma two_points_zero_after_1:
  assumes "omp_num_threads P = 1"
  shows "loop_variables (seeding_state_after (counter_deps openmp zero_draws) \<lparr>shape = [2, 1], buf = [0, 3]\<rparr> 2 0 cb P 1) =
   (3, 9, [0, 9], [0, 9], [0, 0])"
proof -
  have "loop_variables (seeding_round (counter_deps openmp zero_draws) [0, 3] 2 1 2 cb 1
          (seeding_state_after (counter_deps openmp zero_draws) \<lparr>shape = [2, 1], buf = [0, 3]\<rparr> 2 0 cb P 0)) =
        (3, 9, [0, 9], [0, 9], [0, 0])"
    by (rule two_points_zero_round[OF two_points_after_0]) (simp add: omp_num_threads_after assms)
  then show ?thesis
    using seeding_state_after_Suc[of "counter_deps openmp zero_draws" "\<lparr>shape = [2, 1], buf = [0, 3]\<rparr>" 2 0 cb P 0]
    by (simp add: nTrials_of_2)
qed

theorem cancel_is_ignored_counterexample:
  "fst (always_cancel 0) = Cancel \<and>
   initKmeansPlusPlus (counter_deps True quarter_draws) \<lparr>shape = [2, 1], buf = [0, 3]\<rparr> 2 0 1
     (Some always_cancel) \<lparr>omp_num_threads = 1, external = 0\<rparr> =
   (Inr \<lparr>shape = [2, 1], buf = [0, 3]\<rparr>, \<lparr>omp_num_threads = 1, external = 2\<rparr>)"
proof -
  have c: "centers (seeding_state_after (counter_deps True quarter_draws) \<lparr>shape = [2, 1], buf = [0, 3]\<rparr> 2 0
             (Some always_cancel) \<lparr>omp_num_threads = 1, external = 0\<rparr> 1) = [0, 3]"
    using two_points_quarter_after_1[of "\<lparr>omp_num_threads = 1, external = 0\<rparr>" True "Some always_cancel"]
    by (simp add: loop_variables_def)
  have p: "proc (seeding_state_after (counter_deps True quarter_draws) \<lparr>shape = [2, 1], buf = [0, 3]\<rparr> 2 0
             (Some always_cancel) \<lparr>omp_num_threads = 1, external = 0\<rparr> 1) = \<lparr>omp_num_threads = 1, external = 2\<rparr>"
    by (simp add: proc_after perform_callback_def always_cancel_def)
  have v: "initKmeansPlusPlus (counter_deps True quarter_draws) \<lparr>shape = [2, 1], buf = [0, 3]\<rparr> 2 0 1
     (Some always_cancel) \<lparr>omp_num_threads = 1, external = 0\<rparr> =
     (Inr \<lparr>shape = [2, shape \<lparr>shape = [2, 1], buf = [0, 3]\<rparr> ! 1],
           buf = centers (seeding_state_after (counter_deps True quarter_draws) \<lparr>shape = [2, 1], buf = [0, 3]\<rparr> 2 0
             (Some always_cancel) (set_num_threads (counter_deps True quarter_draws) 1 \<lparr>omp_num_threads = 1, external = 0\<rparr>) (2 - 1))\<rparr>,
      proc (seeding_state_after (counter_deps True quarter_draws) \<lparr>shape = [2, 1], buf = [0, 3]\<rparr> 2 0
             (Some always_cancel) (set_num_threads (counter_deps True quarter_draws) 1 \<lparr>omp_num_threads = 1, external = 0\<rparr>) (2 - 1)))"
    by (rule initKmeansPlusPlus_valid) (simp_all add: two_dimensional_def ndim_def)
  have s: "set_num_threads (counter_deps True quarter_draws) 1 \<lparr>omp_num_threads = 1, external = 0::nat\<rparr> =
           \<lparr>omp_num_threads = 1, external = 0\<rparr>"
    by (simp add: set_num_threads_def)
  show ?thesis
    unfolding v s using c p by (simp add: always_cancel_def)
qed



section \<open>The cost evaluator\<close>

text \<open>
  C9. Whenever the assignment engine returns assignments for the data and the centers,
  the cost overload called without assignments returns exactly what the overload with
  assignments returns on these assignments.
\<close>

theorem costFunction_computes_assignments_first:
  "assign_chunk_to_centers D np_data np_centers n_threads = Inr assignments \<Longrightarrow>
   costFunction D np_data np_centers n_threads =
     costFunction_assigned D np_data np_centers assignments n_threads"
  by (simp add: costFunction_def)

theorem costFunction_computes_assignments_first_witness:
  "assign_chunk_to_centers (counter_deps True quarter_draws :: (nat, unit) deps)
     \<lparr>shape = [2, 1], buf = [0, 3]\<rparr> \<lparr>shape = [1, 1], buf = [1]\<rparr> 1 = Inr [0, 0] \<and>
   costFunction (counter_deps True quarter_draws :: (nat, unit) deps)
     \<lparr>shape = [2, 1], buf = [0, 3]\<rparr> \<lparr>shape = [1, 1], buf = [1]\<rparr> 1 = Inr 5"
proof -
  have a: "assign_chunk_to_centers (counter_deps True quarter_draws :: (nat, unit) deps)
     \<lparr>shape = [2, 1], buf = [0, 3]\<rparr> \<lparr>shape = [1, 1], buf = [1]\<rparr> 1 = Inr [0, 0]"
    by (simp add: counter_deps_def nearest_center_assignments_def min_element_def
        min_element_loop.simps upt_rec)
  show ?thesis
    using costFunction_computes_assignments_first [OF a] a
    by (simp add: counter_deps_def assigned_cost_def row_def slice_def squared_euclidean_def upt_rec)
qed

end
